theory Spec2Isabelle
  imports Main "HOL-Library.Word"
begin

unbundle bit_operations_syntax

section \<open>KFMon: the watch/process supervision engine\<close>

text \<open>
  A shallow embedding of the daemon of \<^verbatim>\<open>src/unnamed/part_000\<close> (the KFMon
  main source): the mixing hash \<^verbatim>\<open>qhash\<close>, the readiness oracle
  \<^verbatim>\<open>is_target_processed\<close>, the process table with \<^verbatim>\<open>spawn\<close> and the
  two reap passes, the inotify decoder \<^verbatim>\<open>handle_events\<close> and the loop of
  \<^verbatim>\<open>main\<close>.

  C integers that are only stored and compared (pids, descriptors, inotify watch
  descriptors) are \<open>int\<close>; the hash accumulator and the event mask, on which the
  code shifts and masks, are \<open>32 word\<close>; array indices and counters are \<open>nat\<close>.
\<close>

subsection \<open>The mixing hash\<close>

type_synonym u8 = "8 word"
type_synonym u32 = "32 word"

text \<open>One turn of the \<^verbatim>\<open>for\<close> loop of \<^verbatim>\<open>qhash\<close>, on \<^verbatim>\<open>unsigned int\<close>.\<close>

definition qhash_step :: "u32 \<Rightarrow> u8 \<Rightarrow> u32" where
  "qhash_step h b =
     (let h1 = push_bit 4 h + ucast b;
          h2 = h1 XOR drop_bit 23 (h1 AND 0xf0000000)
      in h2 AND 0x0fffffff)"

fun qhash_loop :: "u32 \<Rightarrow> u8 list \<Rightarrow> u32" where
  "qhash_loop h [] = h"
| "qhash_loop h (b # bs) = qhash_loop (qhash_step h b) bs"

definition qhash :: "u8 list \<Rightarrow> u32" where
  "qhash bytes = qhash_loop 0 bytes"

text \<open>The two path components \<^verbatim>\<open>is_target_processed\<close> derives from the hash.\<close>

definition hash_dir1 :: "u32 \<Rightarrow> u32" where
  "hash_dir1 h = h AND (0xff * 1)"

definition hash_dir2 :: "u32 \<Rightarrow> u32" where
  "hash_dir2 h = drop_bit 8 (h AND (0xff00 * 1))"

text \<open>
  The hash as the specification words it, on unbounded naturals: from accumulator 0,
  for each byte, shift left 4 bits, add the byte, XOR in
  \<open>(accumulator & 0xf0000000) >> 23\<close>, mask to 28 bits.
\<close>

definition spec_hash_step :: "nat \<Rightarrow> nat \<Rightarrow> nat" where
  "spec_hash_step acc b =
     (let a1 = push_bit 4 acc + b;
          a2 = a1 XOR drop_bit 23 (a1 AND 0xf0000000)
      in take_bit 28 a2)"

definition spec_hash :: "nat list \<Rightarrow> nat" where
  "spec_hash bs = foldl spec_hash_step 0 bs"

subsection \<open>Build parameters and configuration\<close>

text \<open>
  The header \<^verbatim>\<open>kfmon.h\<close> is not among the sources, so what it fixes is a
  parameter of the model: the capacity \<^verbatim>\<open>WATCH_MAX\<close> of the watch and process
  tables, whether the build defines \<^verbatim>\<open>DEBUG\<close>, the mountpoint, and what
  the macro \<^verbatim>\<open>CALL_SQLITE\<close> does when the wrapped SQLite call fails, given the
  current value of the local \<^verbatim>\<open>is_processed\<close>: \<open>Some b\<close> when it makes
  \<^verbatim>\<open>is_target_processed\<close> return \<open>b\<close>, \<open>None\<close> when it ends the process.
\<close>

record params =
  WATCH_MAX :: nat
  DEBUG :: bool
  KFMON_TARGET_MOUNTPOINT :: string
  CALL_SQLITE_fails :: "bool \<Rightarrow> bool option"

definition PATH_MAX :: nat where
  "PATH_MAX = 4096"

record DaemonConfig =
  db_timeout :: int
  use_syslog :: bool

record WatchConfig =
  filename :: string
  action :: string
  do_db_update :: bool
  skip_db_checks :: bool
  db_title :: string
  db_author :: string
  db_comment :: string
  inotify_wd :: int
  wd_was_destroyed :: bool

text \<open>
  How the process can stop, or leave the daemon's control flow. A run that stops is
  its reason alone; states and traces are those of a daemon that goes on.
\<close>

datatype halt =
    Exit_failure
  | Child_execvp string
  | Out_of_bounds
  | Waiting_for_mount

definition then_do :: "halt + 'a \<Rightarrow> ('a \<Rightarrow> halt + 'b) \<Rightarrow> halt + 'b" where
  "then_do m f = (case m of Inl h \<Rightarrow> Inl h | Inr x \<Rightarrow> f x)"

fun for_each :: "('i \<Rightarrow> 's \<Rightarrow> halt + 's) \<Rightarrow> 'i list \<Rightarrow> 's \<Rightarrow> halt + 's" where
  "for_each body [] s = Inr s"
| "for_each body (i # rest) s =
     (case body i s of Inl h \<Rightarrow> Inl h | Inr s' \<Rightarrow> for_each body rest s')"

subsection \<open>The readiness oracle\<close>

text \<open>
  The content database and the file system belong to the host, so they are an input:
  a \<open>world\<close> is what one call of \<^verbatim>\<open>is_target_processed\<close> finds. \<open>api_ok n\<close>
  says whether the \<open>n\<close>-th call wrapped in \<^verbatim>\<open>CALL_SQLITE\<close> (in the order of the
  function's text: 0 \<^verbatim>\<open>open_v2\<close>; 1, 2 prepare and bind of the EXISTS query; 3, 4
  of the ImageID query; 5, 6 of the Title query; 7 to 11 prepare and four binds of the
  UPDATE) returns \<^verbatim>\<open>SQLITE_OK\<close>; \<open>step_busy n\<close> says whether the \<open>n\<close>-th
  \<^verbatim>\<open>sqlite3_step\<close> (0 EXISTS, 1 ImageID, 2 Title, 3 UPDATE) fails, as on a database
  still locked after the busy timeout; \<open>journal n\<close> whether the rollback journal is
  there at the \<open>n\<close>-th look.
\<close>

record content_row =
  ContentID :: string
  ContentType :: string
  ImageID :: string
  Title :: string
  Attribution :: string
  Description :: string

record world =
  content :: "content_row list"
  files :: "string list"
  api_ok :: "nat \<Rightarrow> bool"
  step_busy :: "nat \<Rightarrow> bool"
  journal :: "nat \<Rightarrow> bool"

datatype 'a step_rc = SQLITE_ROW 'a | SQLITE_DONE | SQLITE_FAILED

record itp_result =
  is_processed :: bool
  db_after :: "content_row list"
  sleeps :: nat

text \<open>\<^verbatim>\<open>access(path, F_OK) == 0\<close>.\<close>

definition access_ok :: "world \<Rightarrow> string \<Rightarrow> bool" where
  "access_ok w path = (path \<in> set (files w))"

text \<open>A C string ends at its first NUL; \<^verbatim>\<open>snprintf(buf, n, ...)\<close> keeps \<open>n - 1\<close> bytes.\<close>

definition c_str :: "string \<Rightarrow> string" where
  "c_str s = takeWhile (\<lambda>c. c \<noteq> CHR 0x00) s"

definition snprintf :: "nat \<Rightarrow> string \<Rightarrow> string" where
  "snprintf n s = take (n - 1) s"

definition digit_char :: "nat \<Rightarrow> char" where
  "digit_char d = ''0123456789'' ! d"

function dec :: "nat \<Rightarrow> string" where
  "dec n = (if n < 10 then [digit_char n] else dec (n div 10) @ [digit_char (n mod 10)])"
  by pat_completeness auto
termination
  by (relation "measure id") auto

text \<open>The rows \<^verbatim>\<open>WHERE ContentID = @id AND ContentType = '6'\<close> selects.\<close>

definition select_rows :: "world \<Rightarrow> string \<Rightarrow> content_row list" where
  "select_rows w book_path =
     filter (\<lambda>r. ContentID r = book_path \<and> ContentType r = ''6'') (content w)"

definition sqlite3_step :: "world \<Rightarrow> nat \<Rightarrow> 'a list \<Rightarrow> 'a step_rc" where
  "sqlite3_step w n rows =
     (if step_busy w n then SQLITE_FAILED
      else case rows of [] \<Rightarrow> SQLITE_DONE | r # _ \<Rightarrow> SQLITE_ROW r)"

definition book_path_of :: "WatchConfig \<Rightarrow> string" where
  "book_path_of wc = snprintf (PATH_MAX + 7) (''file://'' @ filename wc)"

definition images_path :: "params \<Rightarrow> string \<Rightarrow> string" where
  "images_path prm image_id =
     (let hash = qhash (map of_char image_id);
          dir1 = hash_dir1 hash;
          dir2 = hash_dir2 hash
      in snprintf PATH_MAX (KFMON_TARGET_MOUNTPOINT prm @ ''/.kobo-images/''
            @ dec (unat dir1) @ ''/'' @ dec (unat dir2)))"

definition thumbnail_path :: "params \<Rightarrow> string \<Rightarrow> string \<Rightarrow> string" where
  "thumbnail_path prm image_id suffix =
     snprintf PATH_MAX (images_path prm image_id @ ''/'' @ c_str image_id
        @ '' - '' @ suffix @ ''.parsed'')"

definition thumbnails_num :: "params \<Rightarrow> world \<Rightarrow> string \<Rightarrow> nat" where
  "thumbnails_num prm w image_id =
     (let n0 = 0;
          n1 = (if access_ok w (thumbnail_path prm image_id ''N3_FULL'') then n0 + 1 else n0);
          n2 = (if access_ok w (thumbnail_path prm image_id ''N3_LIBRARY_FULL'') then n1 + 1 else n1);
          n3 = (if access_ok w (thumbnail_path prm image_id ''N3_LIBRARY_GRID'') then n2 + 1 else n2)
      in n3)"

text \<open>The value handed to \<^verbatim>\<open>sqlite3_busy_timeout\<close>.\<close>

definition busy_timeout :: "DaemonConfig \<Rightarrow> bool \<Rightarrow> int" where
  "busy_timeout dc wait_for_db = db_timeout dc * ((if wait_for_db then 1 else 0) + 1)"

text \<open>A failing \<^verbatim>\<open>CALL_SQLITE\<close>: the macro decides; nothing was written.\<close>

definition sqlite_failed :: "params \<Rightarrow> world \<Rightarrow> bool \<Rightarrow> halt + itp_result" where
  "sqlite_failed prm w is_p =
     (case CALL_SQLITE_fails prm is_p of
        None \<Rightarrow> Inl Exit_failure
      | Some b \<Rightarrow> Inr \<lparr>is_processed = b, db_after = content w, sleeps = 0\<rparr>)"

text \<open>The wait for the rollback journal: at most 41 sleeps of 250 ms.\<close>

function wait_for_journal :: "world \<Rightarrow> nat \<Rightarrow> nat" where
  "wait_for_journal w count =
     (if journal w count
      then (if count + 1 > 40 then count + 1 else wait_for_journal w (count + 1))
      else count)"
  by pat_completeness auto
termination
  by (relation "measure (\<lambda>(w, count). 41 - count)") auto

text \<open>The tail of \<^verbatim>\<open>is_target_processed\<close>, from the journal check on.\<close>

definition itp_finish :: "world \<Rightarrow> bool \<Rightarrow> bool \<Rightarrow> content_row list \<Rightarrow> halt + itp_result" where
  "itp_finish w wait_for_db is_p db =
     Inr \<lparr>is_processed = is_p, db_after = db,
          sleeps = (if is_p \<and> wait_for_db then wait_for_journal w 0 else 0)\<rparr>"

text \<open>The optional update of Title, Attribution and Description.\<close>

definition update_rows :: "WatchConfig \<Rightarrow> string \<Rightarrow> content_row list \<Rightarrow> content_row list" where
  "update_rows wc book_path rows =
     map (\<lambda>r. if ContentID r = book_path \<and> ContentType r = ''6''
              then r\<lparr>Title := db_title wc, Attribution := db_author wc,
                     Description := db_comment wc\<rparr>
              else r) rows"

definition itp_update :: "params \<Rightarrow> WatchConfig \<Rightarrow> world \<Rightarrow> bool \<Rightarrow> bool \<Rightarrow> halt + itp_result" where
  "itp_update prm wc w wait_for_db is_p =
     (let book_path = book_path_of wc;
          update = do_db_update wc
      in if is_p \<and> update then
           (if \<not> api_ok w 5 then sqlite_failed prm w is_p
            else if \<not> api_ok w 6 then sqlite_failed prm w is_p
            else
              let needs_update =
                    (case sqlite3_step w 2 (map Title (select_rows w book_path)) of
                       SQLITE_ROW t \<Rightarrow> c_str t \<noteq> db_title wc
                     | _ \<Rightarrow> False)
              in if needs_update then
                   (if \<not> api_ok w 7 then sqlite_failed prm w is_p
                    else if \<not> api_ok w 8 then sqlite_failed prm w is_p
                    else if \<not> api_ok w 9 then sqlite_failed prm w is_p
                    else if \<not> api_ok w 10 then sqlite_failed prm w is_p
                    else if \<not> api_ok w 11 then sqlite_failed prm w is_p
                    else itp_finish w wait_for_db is_p
                           (if step_busy w 3 then content w
                            else update_rows wc book_path (content w)))
                 else itp_finish w wait_for_db is_p (content w))
         else itp_finish w wait_for_db is_p (content w))"

text \<open>The thumbnail check, entered with the answer of the EXISTS query.\<close>

definition itp_thumbnails :: "params \<Rightarrow> WatchConfig \<Rightarrow> world \<Rightarrow> bool \<Rightarrow> bool \<Rightarrow> halt + itp_result" where
  "itp_thumbnails prm wc w wait_for_db is_p =
     (let book_path = book_path_of wc
      in if is_p then
           (if \<not> api_ok w 3 then sqlite_failed prm w False
            else if \<not> api_ok w 4 then sqlite_failed prm w False
            else itp_update prm wc w wait_for_db
                   (case sqlite3_step w 1 (map ImageID (select_rows w book_path)) of
                      SQLITE_ROW image_id \<Rightarrow> thumbnails_num prm w image_id = 3
                    | _ \<Rightarrow> False))
         else itp_update prm wc w wait_for_db is_p)"

definition is_target_processed ::
  "params \<Rightarrow> WatchConfig list \<Rightarrow> world \<Rightarrow> nat \<Rightarrow> bool \<Rightarrow> halt + itp_result" where
  "is_target_processed prm wcs w watch_idx wait_for_db =
     (if \<not> watch_idx < length wcs then Inl Out_of_bounds
      else
        let wc = wcs ! watch_idx
        in if DEBUG prm \<and> skip_db_checks wc
           then Inr \<lparr>is_processed = True, db_after = content w, sleeps = 0\<rparr>
           else if \<not> api_ok w 0 then sqlite_failed prm w False
           else if \<not> api_ok w 1 then sqlite_failed prm w False
           else if \<not> api_ok w 2 then sqlite_failed prm w False
           else itp_thumbnails prm wc w wait_for_db
                  (case sqlite3_step w 0
                          [if select_rows w (book_path_of wc) \<noteq> [] then 1 else 0 :: int] of
                     SQLITE_ROW v \<Rightarrow> v = 1
                   | _ \<Rightarrow> False))"

subsection \<open>The process table\<close>

text \<open>
  \<^verbatim>\<open>PT\<close> holds three arrays of \<^verbatim>\<open>WATCH_MAX\<close> entries. Of each
  \<^verbatim>\<open>struct pollfd\<close> only \<^verbatim>\<open>fd\<close> is state: \<^verbatim>\<open>events\<close> is always
  \<^verbatim>\<open>POLLIN\<close>, and \<^verbatim>\<open>revents\<close> is rewritten by every \<^verbatim>\<open>poll\<close>, so it
  is part of the input of a wakeup.
\<close>

record ProcessTable =
  spawn_pids :: "int list"
  spawn_fds :: "int list"
  spawn_watchids :: "int list"

text \<open>What the daemon does to the outside, in the order it does it.\<close>

datatype action =
    Inotify_init1 int
  | Inotify_add_watch int nat int
  | Inotify_rm_watch int int
  | Query_processed nat bool
  | Pipe int int
  | Fork nat int
  | Close int
  | Waitpid nat int bool
  | Add_process nat int int nat
  | Remove_process nat

record state =
  PT :: ProcessTable
  watch_config :: "WatchConfig list"
  watch_count :: nat
  daemon_config :: DaemonConfig
  pending_processing :: bool
  trace :: "action list"

definition emit :: "action list \<Rightarrow> state \<Rightarrow> state" where
  "emit as st = st\<lparr>trace := trace st @ as\<rparr>"

definition init_process_table :: "params \<Rightarrow> ProcessTable" where
  "init_process_table prm =
     \<lparr>spawn_pids = replicate (WATCH_MAX prm) (- 1),
      spawn_fds = replicate (WATCH_MAX prm) (- 1),
      spawn_watchids = replicate (WATCH_MAX prm) (- 1)\<rparr>"

fun next_available_from :: "nat \<Rightarrow> int list \<Rightarrow> int" where
  "next_available_from i [] = - 1"
| "next_available_from i (fd # fds) =
     (if fd = - 1 then int i else next_available_from (Suc i) fds)"

definition get_next_available_pt_entry :: "ProcessTable \<Rightarrow> int" where
  "get_next_available_pt_entry pt = next_available_from 0 (spawn_fds pt)"

definition add_process_to_table :: "nat \<Rightarrow> int \<Rightarrow> int \<Rightarrow> nat \<Rightarrow> ProcessTable \<Rightarrow> ProcessTable" where
  "add_process_to_table i pid fd watch_idx pt =
     pt\<lparr>spawn_pids := (spawn_pids pt)[i := pid],
        spawn_fds := (spawn_fds pt)[i := fd],
        spawn_watchids := (spawn_watchids pt)[i := int watch_idx]\<rparr>"

definition remove_process_from_table :: "nat \<Rightarrow> state \<Rightarrow> state" where
  "remove_process_from_table i st =
     emit [Close (spawn_fds (PT st) ! i), Remove_process i]
       (st\<lparr>PT := (PT st)\<lparr>spawn_pids := (spawn_pids (PT st))[i := - 1],
                           spawn_fds := (spawn_fds (PT st))[i := - 1],
                           spawn_watchids := (spawn_watchids (PT st))[i := - 1]\<rparr>\<rparr>)"

text \<open>
  \<^verbatim>\<open>spawn\<close>, as the daemon runs it. \<open>pipe_res\<close> is what \<^verbatim>\<open>pipe\<close> answers (the
  two descriptors, which are never negative, or failure) and \<open>fork_res\<close> what
  \<^verbatim>\<open>fork\<close> returns. In the child the function never returns to the daemon's loop.
\<close>

record spawn_env =
  pipe_res :: "(nat \<times> nat) option"
  fork_res :: int

definition spawn :: "spawn_env \<Rightarrow> string \<Rightarrow> nat \<Rightarrow> state \<Rightarrow> halt + state" where
  "spawn env command watch_idx st =
     (case pipe_res env of
        None \<Rightarrow> Inl Exit_failure
      | Some (p0, p1) \<Rightarrow>
          let pid = fork_res env
          in if pid < 0 then Inl Exit_failure
             else if pid = 0 then Inl (Child_execvp command)
             else
               let st1 = emit [Pipe (int p0) (int p1), Fork watch_idx pid, Close (int p1)] st;
                   i = get_next_available_pt_entry (PT st1)
               in if i < 0 then Inl Exit_failure
                  else Inr (emit [Add_process (nat i) pid (int p0) watch_idx]
                         (st1\<lparr>PT := add_process_to_table (nat i) pid (int p0) watch_idx (PT st1)\<rparr>)))"

text \<open>
  \<^verbatim>\<open>reap_zombie_processes\<close>: \<open>nohang i\<close> is what
  \<^verbatim>\<open>waitpid(PT.spawn_pids[i], &wstatus, WNOHANG)\<close> returns.
\<close>

definition reap_zombie :: "(nat \<Rightarrow> int) \<Rightarrow> nat \<Rightarrow> state \<Rightarrow> halt + state" where
  "reap_zombie nohang i st =
     (let pid = spawn_pids (PT st) ! i
      in if pid \<noteq> - 1 then
           (let ret = nohang i;
                st1 = emit [Waitpid i pid True] st
            in if ret < 0 then Inl Exit_failure
               else if ret = pid then Inr (remove_process_from_table i st1)
               else Inr st1)
         else Inr st)"

definition reap_zombie_processes :: "params \<Rightarrow> (nat \<Rightarrow> int) \<Rightarrow> state \<Rightarrow> halt + state" where
  "reap_zombie_processes prm nohang st =
     for_each (reap_zombie nohang) [1..<WATCH_MAX prm] st"

fun is_watch_already_spawned_from :: "int \<Rightarrow> int list \<Rightarrow> bool" where
  "is_watch_already_spawned_from w [] = False"
| "is_watch_already_spawned_from w (x # xs) =
     (if x = w then True else is_watch_already_spawned_from w xs)"

definition is_watch_already_spawned :: "nat \<Rightarrow> ProcessTable \<Rightarrow> bool" where
  "is_watch_already_spawned watch_idx pt =
     is_watch_already_spawned_from (int watch_idx) (spawn_watchids pt)"

fun get_spawn_pid_from :: "int \<Rightarrow> int list \<Rightarrow> int list \<Rightarrow> int" where
  "get_spawn_pid_from w (x # xs) (p # ps) =
     (if x = w then p else get_spawn_pid_from w xs ps)"
| "get_spawn_pid_from w xs ps = - 1"

definition get_spawn_pid_for_watch :: "nat \<Rightarrow> ProcessTable \<Rightarrow> int" where
  "get_spawn_pid_for_watch watch_idx pt =
     get_spawn_pid_from (int watch_idx) (spawn_watchids pt) (spawn_pids pt)"

subsection \<open>Decoding inotify events\<close>

text \<open>The masks of \<^verbatim>\<open><sys/inotify.h>\<close> and \<^verbatim>\<open><poll.h>\<close>.\<close>

definition IN_CLOSE :: u32 where "IN_CLOSE = 0x00000008 OR 0x00000010"
definition IN_OPEN :: u32 where "IN_OPEN = 0x00000020"
definition IN_UNMOUNT :: u32 where "IN_UNMOUNT = 0x00002000"
definition IN_Q_OVERFLOW :: u32 where "IN_Q_OVERFLOW = 0x00004000"
definition IN_IGNORED :: u32 where "IN_IGNORED = 0x00008000"

definition POLLIN :: "16 word" where "POLLIN = 0x001"
definition POLLHUP :: "16 word" where "POLLHUP = 0x010"

text \<open>
  An event as \<^verbatim>\<open>read\<close> delivers it (its name is only logged), with what the
  outside answers while it is handled: the world the readiness check of the
  \<^verbatim>\<open>IN_OPEN\<close> branch sees, the world the check of the \<^verbatim>\<open>IN_CLOSE\<close> branch
  sees, and the answers to \<^verbatim>\<open>pipe\<close> and \<^verbatim>\<open>fork\<close> should it spawn.
\<close>

record inotify_event =
  wd :: int
  mask_ev :: u32
  len :: u32

record event_env =
  open_world :: world
  close_world :: world
  spawn_answers :: spawn_env

type_synonym event_in = "inotify_event \<times> event_env"

record locals =
  destroyed_wd :: bool
  was_unmounted :: bool

text \<open>The search for the watch of an event: the index it stops at, and whether it matched.\<close>

function find_watch_idx_from :: "WatchConfig list \<Rightarrow> nat \<Rightarrow> int \<Rightarrow> nat \<Rightarrow> nat \<times> bool" where
  "find_watch_idx_from wcs count w i =
     (if i < count
      then (if inotify_wd (wcs ! i) = w then (i, True)
            else find_watch_idx_from wcs count w (Suc i))
      else (i, False))"
  by pat_completeness auto
termination
  by (relation "measure (\<lambda>(wcs, count, w, i). count - i)") auto

definition find_watch_idx :: "state \<Rightarrow> int \<Rightarrow> nat \<times> bool" where
  "find_watch_idx st w = find_watch_idx_from (watch_config st) (watch_count st) w 0"

text \<open>
  Every branch first reads \<^verbatim>\<open>watch_config[watch_idx]\<close> (for its log line): past the
  end of the array the behaviour is undefined, here \<open>Out_of_bounds\<close>.
\<close>

definition on_open :: "params \<Rightarrow> event_env \<Rightarrow> nat \<Rightarrow> state \<Rightarrow> halt + state" where
  "on_open prm env watch_idx st =
     (if \<not> watch_idx < length (watch_config st) then Inl Out_of_bounds
      else if \<not> is_watch_already_spawned watch_idx (PT st) then
        (case is_target_processed prm (watch_config st) (open_world env) watch_idx False of
           Inl h \<Rightarrow> Inl h
         | Inr r \<Rightarrow>
             Inr (emit [Query_processed watch_idx False]
                    (st\<lparr>pending_processing := \<not> is_processed r\<rparr>)))
      else Inr st)"

definition on_close :: "params \<Rightarrow> event_env \<Rightarrow> nat \<Rightarrow> state \<Rightarrow> halt + state" where
  "on_close prm env watch_idx st =
     (if \<not> watch_idx < length (watch_config st) then Inl Out_of_bounds
      else if \<not> is_watch_already_spawned watch_idx (PT st) then
        (if \<not> pending_processing st then
           (case is_target_processed prm (watch_config st) (close_world env) watch_idx True of
              Inl h \<Rightarrow> Inl h
            | Inr r \<Rightarrow>
                let st1 = emit [Query_processed watch_idx True] st
                in if is_processed r
                   then spawn (spawn_answers env) (action (watch_config st ! watch_idx))
                          watch_idx st1
                   else Inr st1)
         else Inr st)
      else Inr st)"

definition on_unmount :: "nat \<Rightarrow> state \<times> locals \<Rightarrow> halt + state \<times> locals" where
  "on_unmount watch_idx sl =
     (case sl of (st, lc) \<Rightarrow>
        if \<not> watch_idx < length (watch_config st) then Inl Out_of_bounds
        else Inr (st, lc\<lparr>was_unmounted := True\<rparr>))"

definition flag_destroyed :: "nat \<Rightarrow> state \<Rightarrow> state" where
  "flag_destroyed watch_idx st =
     st\<lparr>watch_config :=
          (watch_config st)[watch_idx := (watch_config st ! watch_idx)\<lparr>wd_was_destroyed := True\<rparr>]\<rparr>"

definition on_ignored :: "nat \<Rightarrow> state \<times> locals \<Rightarrow> halt + state \<times> locals" where
  "on_ignored watch_idx sl =
     (case sl of (st, lc) \<Rightarrow>
        if \<not> watch_idx < length (watch_config st) then Inl Out_of_bounds
        else Inr (flag_destroyed watch_idx st, lc\<lparr>destroyed_wd := True\<rparr>))"

definition on_q_overflow :: "int \<Rightarrow> nat \<Rightarrow> state \<times> locals \<Rightarrow> halt + state \<times> locals" where
  "on_q_overflow fd watch_idx sl =
     (case sl of (st, lc) \<Rightarrow>
        if \<not> watch_idx < length (watch_config st) then Inl Out_of_bounds
        else Inr (flag_destroyed watch_idx
                    (emit [Inotify_rm_watch fd (inotify_wd (watch_config st ! watch_idx))] st),
                  lc\<lparr>destroyed_wd := True\<rparr>))"

definition has :: "u32 \<Rightarrow> u32 \<Rightarrow> bool" where
  "has m bits = (m AND bits \<noteq> 0)"

text \<open>The body of the loop over the events of one buffer.\<close>

definition handle_event :: "params \<Rightarrow> int \<Rightarrow> event_in \<Rightarrow> state \<times> locals \<Rightarrow> halt + state \<times> locals" where
  "handle_event prm fd e sl =
     (case e of (event, env) \<Rightarrow>
      case sl of (st, lc) \<Rightarrow>
        let watch_idx = fst (find_watch_idx st (wd event))
        in then_do (if has (mask_ev event) IN_OPEN then on_open prm env watch_idx st else Inr st)
             (\<lambda>st1.
           then_do (if has (mask_ev event) IN_CLOSE then on_close prm env watch_idx st1 else Inr st1)
             (\<lambda>st2.
           then_do (if has (mask_ev event) IN_UNMOUNT then on_unmount watch_idx (st2, lc)
                    else Inr (st2, lc))
             (\<lambda>sl3.
           then_do (if has (mask_ev event) IN_IGNORED then on_ignored watch_idx sl3 else Inr sl3)
             (\<lambda>sl4.
           if has (mask_ev event) IN_Q_OVERFLOW then on_q_overflow fd watch_idx sl4
           else Inr sl4)))))"

text \<open>The loop that removes the other watches before \<^verbatim>\<open>handle_events\<close> gives up.\<close>

definition remove_other_watch :: "int \<Rightarrow> bool \<Rightarrow> state \<Rightarrow> nat \<Rightarrow> state" where
  "remove_other_watch fd unmounted st watch_idx =
     (if \<not> wd_was_destroyed (watch_config st ! watch_idx) then
        (if \<not> unmounted
         then emit [Inotify_rm_watch fd (inotify_wd (watch_config st ! watch_idx))] st
         else st)
      else st\<lparr>watch_config :=
                (watch_config st)[watch_idx :=
                   (watch_config st ! watch_idx)\<lparr>wd_was_destroyed := False\<rparr>]\<rparr>)"

definition remove_other_watches :: "int \<Rightarrow> bool \<Rightarrow> state \<Rightarrow> state" where
  "remove_other_watches fd unmounted st =
     foldl (remove_other_watch fd unmounted) st [0..<watch_count st]"

text \<open>
  What one \<^verbatim>\<open>read\<close> on the inotify descriptor gives: an error other than
  \<^verbatim>\<open>EAGAIN\<close>, \<^verbatim>\<open>EAGAIN\<close>, or a buffer of events (empty when it returns 0). The
  list of these is the sequence of answers to the successive reads of one call; when
  it is used up the descriptor is drained, which is \<^verbatim>\<open>EAGAIN\<close>.
\<close>

datatype read_result = Read_failed | Read_eagain | Read_ok "event_in list"

fun handle_events_loop ::
  "params \<Rightarrow> int \<Rightarrow> read_result list \<Rightarrow> state \<times> locals \<Rightarrow> halt + state \<times> locals" where
  "handle_events_loop prm fd [] sl = Inr sl"
| "handle_events_loop prm fd (Read_failed # rest) sl = Inl Exit_failure"
| "handle_events_loop prm fd (Read_eagain # rest) sl = Inr sl"
| "handle_events_loop prm fd (Read_ok evs # rest) sl =
     (if evs = [] then Inr sl
      else case for_each (handle_event prm fd) evs sl of
             Inl h \<Rightarrow> Inl h
           | Inr (st, lc) \<Rightarrow>
               if destroyed_wd lc
               then Inr (remove_other_watches fd (was_unmounted lc) st, lc)
               else handle_events_loop prm fd rest (st, lc))"

definition handle_events :: "params \<Rightarrow> int \<Rightarrow> read_result list \<Rightarrow> state \<Rightarrow> halt + state \<times> bool" where
  "handle_events prm fd reads st =
     (case handle_events_loop prm fd reads
             (st, \<lparr>destroyed_wd = False, was_unmounted = False\<rparr>) of
        Inl h \<Rightarrow> Inl h
      | Inr (st', lc) \<Rightarrow> Inr (st', destroyed_wd lc))"

subsection \<open>Waiting for the mountpoint\<close>

text \<open>
  The mount table is the list of its \<^verbatim>\<open>mnt_dir\<close> entries, \<open>None\<close> when
  \<^verbatim>\<open>setmntent\<close> fails. A wakeup of the \<^verbatim>\<open>poll\<close> on \<^verbatim>\<open>/proc/mounts\<close> is
  either a failure of \<^verbatim>\<open>poll\<close> or whether \<^verbatim>\<open>POLLERR\<close> is set together with
  the table read then. When the wakeups are used up the daemon is still waiting.
\<close>

definition is_target_mounted :: "params \<Rightarrow> string list option \<Rightarrow> bool" where
  "is_target_mounted prm mtab =
     (case mtab of None \<Rightarrow> False | Some dirs \<Rightarrow> KFMON_TARGET_MOUNTPOINT prm \<in> set dirs)"

datatype mount_poll = Mount_poll_failed | Mount_poll bool "string list option"

fun wait_for_target_mountpoint_from :: "params \<Rightarrow> nat \<Rightarrow> mount_poll list \<Rightarrow> halt + unit" where
  "wait_for_target_mountpoint_from prm changes [] = Inl Waiting_for_mount"
| "wait_for_target_mountpoint_from prm changes (Mount_poll_failed # rest) = Inr ()"
| "wait_for_target_mountpoint_from prm changes (Mount_poll pollerr mtab # rest) =
     (if pollerr then
        (if is_target_mounted prm mtab then Inr ()
         else if changes + 1 > 15 then Inl Exit_failure
         else wait_for_target_mountpoint_from prm (changes + 1) rest)
      else if changes > 15 then Inl Exit_failure
      else wait_for_target_mountpoint_from prm changes rest)"

definition wait_for_target_mountpoint :: "params \<Rightarrow> mount_poll list \<Rightarrow> halt + unit" where
  "wait_for_target_mountpoint prm polls = wait_for_target_mountpoint_from prm 0 polls"

subsection \<open>The main loop\<close>

text \<open>
  A wakeup of the \<^verbatim>\<open>poll\<close> of the inner loop: its return value and whether a
  failure is \<^verbatim>\<open>EINTR\<close>, the \<^verbatim>\<open>revents\<close> it wrote for each slot, what the
  blocking \<^verbatim>\<open>waitpid\<close> on a slot's pid returns once it is no longer interrupted,
  what the one with \<^verbatim>\<open>WNOHANG\<close> returns, and the reads of \<^verbatim>\<open>handle_events\<close>.
  \<^verbatim>\<open>poll\<close> leaves \<^verbatim>\<open>revents\<close> at 0 for a negative descriptor.
\<close>

record wakeup =
  poll_num :: int
  poll_eintr :: bool
  revents :: "nat \<Rightarrow> 16 word"
  waited :: "nat \<Rightarrow> int"
  nohang :: "nat \<Rightarrow> int"
  reads :: "read_result list"

definition poll_revents :: "wakeup \<Rightarrow> ProcessTable \<Rightarrow> nat \<Rightarrow> 16 word" where
  "poll_revents wk pt i = (if spawn_fds pt ! i < 0 then 0 else revents wk i)"

definition reap_closed :: "(nat \<Rightarrow> 16 word) \<Rightarrow> (nat \<Rightarrow> int) \<Rightarrow> nat \<Rightarrow> state \<Rightarrow> halt + state" where
  "reap_closed rv waited_for i st =
     (if rv i AND (POLLIN OR POLLHUP) \<noteq> 0 then
        (let pid = spawn_pids (PT st) ! i;
             ret = waited_for i;
             st1 = emit [Waitpid i pid False] st
         in if ret \<noteq> pid then Inl Exit_failure
            else Inr (remove_process_from_table i st1))
      else Inr st)"

text \<open>One turn of the inner loop; the flag says whether it breaks out of it.\<close>

definition main_iteration :: "params \<Rightarrow> int \<Rightarrow> wakeup \<Rightarrow> state \<Rightarrow> halt + state \<times> bool" where
  "main_iteration prm fd wk st =
     (if poll_num wk = - 1 then
        (if poll_eintr wk then Inr (st, False) else Inl Exit_failure)
      else if poll_num wk > 0 then
        (let rv = poll_revents wk (PT st)
         in then_do (for_each (reap_closed rv (waited wk)) [1..<WATCH_MAX prm] st)
              (\<lambda>st1.
                if rv 0 AND POLLIN \<noteq> 0 then
                  then_do (reap_zombie_processes prm (nohang wk) st1)
                    (\<lambda>st2. handle_events prm fd (reads wk) st2)
                else Inr (st1, False)))
      else Inr (st, False))"

text \<open>
  The inner loop over the wakeups of one generation. When they are used up the daemon
  is blocked in \<^verbatim>\<open>poll\<close>; when the loop breaks the descriptor is closed.
\<close>

fun listen :: "params \<Rightarrow> int \<Rightarrow> wakeup list \<Rightarrow> state \<Rightarrow> halt + state \<times> bool" where
  "listen prm fd [] st = Inr (st, False)"
| "listen prm fd (wk # rest) st =
     (case main_iteration prm fd wk st of
        Inl h \<Rightarrow> Inl h
      | Inr (st', stop) \<Rightarrow>
          if stop then Inr (emit [Close fd] st', True) else listen prm fd rest st')"

text \<open>
  A generation: what \<^verbatim>\<open>inotify_init1\<close> returns, the mount table and the wakeups
  of the mount wait, what \<^verbatim>\<open>inotify_add_watch\<close> returns for each watch, and the
  wakeups of the inner loop.
\<close>

record generation =
  init_fd :: int
  mtab :: "string list option"
  mount_polls :: "mount_poll list"
  add_watch_res :: "nat \<Rightarrow> int"
  wakeups :: "wakeup list"

definition add_watch :: "generation \<Rightarrow> int \<Rightarrow> nat \<Rightarrow> state \<Rightarrow> halt + state" where
  "add_watch g fd watch_idx st =
     (let w = add_watch_res g watch_idx;
          st1 = emit [Inotify_add_watch fd watch_idx w]
                  (st\<lparr>watch_config :=
                        (watch_config st)[watch_idx :=
                           (watch_config st ! watch_idx)\<lparr>inotify_wd := w\<rparr>]\<rparr>)
      in if w = - 1 then Inl Exit_failure else Inr st1)"

definition setup_generation :: "params \<Rightarrow> generation \<Rightarrow> state \<Rightarrow> halt + state" where
  "setup_generation prm g st =
     (let fd = init_fd g
      in if fd = - 1 then Inl Exit_failure
         else
           let st0 = emit [Inotify_init1 fd] st
           in then_do (if \<not> is_target_mounted prm (mtab g)
                       then wait_for_target_mountpoint prm (mount_polls g) else Inr ())
                (\<lambda>_.
              then_do (for_each (add_watch g fd) [0..<watch_count st0] st0)
                (\<lambda>st1.
              Inr (st1\<lparr>PT := (PT st1)\<lparr>spawn_fds := (spawn_fds (PT st1))[0 := fd]\<rparr>\<rparr>))))"

definition run_generation :: "params \<Rightarrow> generation \<Rightarrow> state \<Rightarrow> halt + state \<times> bool" where
  "run_generation prm g st =
     then_do (setup_generation prm g st) (\<lambda>st1. listen prm (init_fd g) (wakeups g) st1)"

fun main_loop :: "params \<Rightarrow> generation list \<Rightarrow> state \<Rightarrow> halt + state" where
  "main_loop prm [] st = Inr st"
| "main_loop prm (g # rest) st =
     (case run_generation prm g st of
        Inl h \<Rightarrow> Inl h
      | Inr (st', ended) \<Rightarrow> if ended then main_loop prm rest st' else Inr st')"

text \<open>
  The state \<^verbatim>\<open>main\<close> enters its loop with: the configuration \<^verbatim>\<open>load_config\<close>
  left in \<^verbatim>\<open>watch_config\<close> and \<^verbatim>\<open>watch_count\<close>, the process table just
  initialised, the static flag of \<^verbatim>\<open>handle_events\<close> clear.
\<close>

definition initial_state :: "params \<Rightarrow> DaemonConfig \<Rightarrow> WatchConfig list \<Rightarrow> nat \<Rightarrow> state" where
  "initial_state prm dc wcs n =
     \<lparr>PT = init_process_table prm, watch_config = wcs, watch_count = n,
      daemon_config = dc, pending_processing = False, trace = []\<rparr>"

definition main :: "params \<Rightarrow> DaemonConfig \<Rightarrow> WatchConfig list \<Rightarrow> nat \<Rightarrow> generation list \<Rightarrow> halt + state" where
  "main prm dc wcs n gens = main_loop prm gens (initial_state prm dc wcs n)"

subsection \<open>What the claims speak of\<close>

text \<open>
  Readiness as the specification states it, over the content relation and the files
  on disk. The record of a trigger is a row of \<^verbatim>\<open>content\<close> whose \<^verbatim>\<open>ContentID\<close>
  is \<^verbatim>\<open>file://<path>\<close> and whose \<^verbatim>\<open>ContentType\<close> is \<^verbatim>\<open>6\<close>. The artifacts of a
  record are the files \<^verbatim>\<open>.kobo-images/<dir1>/<dir2>/<ImageID> - <suffix>.parsed\<close>
  under the mountpoint, for the suffixes \<^verbatim>\<open>N3_FULL\<close> (full-screen preview),
  \<^verbatim>\<open>N3_LIBRARY_FULL\<close> (home tile) and \<^verbatim>\<open>N3_LIBRARY_GRID\<close> (grid thumbnail),
  where \<^verbatim>\<open><dir1>\<close> is the low byte of the hash of the bytes of \<^verbatim>\<open>ImageID\<close> and
  \<^verbatim>\<open><dir2>\<close> the next byte, both written in decimal. A trigger is ready when it
  has a record whose three artifacts exist.
\<close>

definition spec_record :: "WatchConfig \<Rightarrow> content_row \<Rightarrow> bool" where
  "spec_record wc row \<longleftrightarrow>
     ContentID row = ''file://'' @ filename wc \<and> ContentType row = ''6''"

text \<open>The decimal numeral of a byte.\<close>

definition spec_digit :: "nat \<Rightarrow> char" where
  "spec_digit d = ''0123456789'' ! d"

definition spec_decimal :: "nat \<Rightarrow> string" where
  "spec_decimal n =
     (if n < 10 then [spec_digit n]
      else if n < 100 then [spec_digit (n div 10), spec_digit (n mod 10)]
      else [spec_digit (n div 100), spec_digit (n div 10 mod 10), spec_digit (n mod 10)])"

definition spec_artifact :: "params \<Rightarrow> string \<Rightarrow> string \<Rightarrow> string" where
  "spec_artifact prm image_id suffix =
     KFMON_TARGET_MOUNTPOINT prm @ ''/.kobo-images/''
       @ spec_decimal (spec_hash (map of_char image_id) mod 256) @ ''/''
       @ spec_decimal (spec_hash (map of_char image_id) div 256 mod 256) @ ''/''
       @ image_id @ '' - '' @ suffix @ ''.parsed''"

definition spec_artifacts :: "params \<Rightarrow> world \<Rightarrow> string \<Rightarrow> bool" where
  "spec_artifacts prm w image_id \<longleftrightarrow>
     spec_artifact prm image_id ''N3_FULL'' \<in> set (files w)
     \<and> spec_artifact prm image_id ''N3_LIBRARY_FULL'' \<in> set (files w)
     \<and> spec_artifact prm image_id ''N3_LIBRARY_GRID'' \<in> set (files w)"

definition spec_ready :: "params \<Rightarrow> WatchConfig \<Rightarrow> world \<Rightarrow> bool" where
  "spec_ready prm wc w \<longleftrightarrow>
     (\<exists>row \<in> set (content w). spec_record wc row \<and> spec_artifacts prm w (ImageID row))"

text \<open>The forks in a trace, and the number of table entries that hold a process.\<close>

fun is_fork :: "action \<Rightarrow> bool" where
  "is_fork (Fork w p) = True"
| "is_fork a = False"

definition spawns :: "state \<Rightarrow> action list" where
  "spawns st = filter is_fork (trace st)"

definition tracked :: "ProcessTable \<Rightarrow> nat" where
  "tracked pt = length (filter (\<lambda>p. p \<noteq> - 1) (spawn_pids pt))"


text \<open>The actions that wait on, fill or reset entry 0 of the process table.\<close>

fun touches_slot0 :: "action \<Rightarrow> bool" where
  "touches_slot0 (Waitpid i p h) = (i = 0)"
| "touches_slot0 (Add_process i p f w) = (i = 0)"
| "touches_slot0 (Remove_process i) = (i = 0)"
| "touches_slot0 a = False"

text \<open>
  The shape of the process table the daemon keeps: three arrays of \<^verbatim>\<open>WATCH_MAX\<close>
  entries, entry 0 with the sentinels for pid and watch, no watch index in two
  entries, a free descriptor only where no watch is recorded, and no action on
  entry 0 in the trace. \<open>good prm lfd\<close> adds that entry 0 holds the descriptor
  \<open>lfd\<close>, as it does while the daemon listens on it.
\<close>

definition pt_inv :: "params \<Rightarrow> state \<Rightarrow> bool" where
  "pt_inv prm st \<longleftrightarrow>
     0 < WATCH_MAX prm
     \<and> length (spawn_pids (PT st)) = WATCH_MAX prm
     \<and> length (spawn_fds (PT st)) = WATCH_MAX prm
     \<and> length (spawn_watchids (PT st)) = WATCH_MAX prm
     \<and> spawn_pids (PT st) ! 0 = - 1
     \<and> spawn_watchids (PT st) ! 0 = - 1
     \<and> distinct (filter (\<lambda>w. w \<noteq> - 1) (spawn_watchids (PT st)))
     \<and> (\<forall>i < WATCH_MAX prm. spawn_fds (PT st) ! i = - 1 \<longrightarrow> spawn_watchids (PT st) ! i = - 1)
     \<and> filter touches_slot0 (trace st) = []"

definition good :: "params \<Rightarrow> int \<Rightarrow> state \<Rightarrow> bool" where
  "good prm lfd st \<longleftrightarrow> pt_inv prm st \<and> spawn_fds (PT st) ! 0 = lfd \<and> lfd \<noteq> - 1"

text \<open>No event of the input carries \<^verbatim>\<open>IN_OPEN\<close>.\<close>

definition no_open :: "event_in list \<Rightarrow> bool" where
  "no_open evs = list_all (\<lambda>e. \<not> has (mask_ev (fst e)) IN_OPEN) evs"

text \<open>
  An event is a fresh open observation in a state when it carries \<^verbatim>\<open>IN_OPEN\<close> and the
  watch it is matched to has no tracked process; these are the events at which the
  code calls the readiness check of the open branch, recorded in the trace as a query
  that does not wait.
\<close>

definition fresh_open :: "state \<Rightarrow> inotify_event \<Rightarrow> bool" where
  "fresh_open st event \<longleftrightarrow>
     has (mask_ev event) IN_OPEN
     \<and> \<not> is_watch_already_spawned (fst (find_watch_idx st (wd event))) (PT st)"

fun is_open_query :: "action \<Rightarrow> bool" where
  "is_open_query (Query_processed w wait) = (\<not> wait)"
| "is_open_query a = False"

text \<open>
  From one state to a later one the trace only grows, and the flag is the same unless
  the part added holds a query of the open branch.
\<close>

definition flag_kept :: "state \<Rightarrow> state \<Rightarrow> bool" where
  "flag_kept st st' \<longleftrightarrow>
     (\<exists>tr. trace st' = trace st @ tr
        \<and> (filter is_open_query tr = [] \<longrightarrow> pending_processing st' = pending_processing st))"

text \<open>
  An event ends the generation when it carries \<^verbatim>\<open>IN_IGNORED\<close> or
  \<^verbatim>\<open>IN_Q_OVERFLOW\<close>. The events one call of \<^verbatim>\<open>handle_events\<close> decodes, given the
  answers to its reads: buffer after buffer, up to a read that gives nothing or a
  buffer with an event that ends the generation. A watch is invalidated by a list of
  events when one that ends the generation is matched to it.
\<close>

definition ends_generation :: "event_in \<Rightarrow> bool" where
  "ends_generation e \<longleftrightarrow>
     has (mask_ev (fst e)) IN_IGNORED \<or> has (mask_ev (fst e)) IN_Q_OVERFLOW"



subsection \<open>Concrete configurations and inputs\<close>

text \<open>
  A small build (three table entries), one watch on an icon with a companion script,
  and worlds in which the host has or has not finished with the icon. The macro is
  taken to make the function return the current \<^verbatim>\<open>is_processed\<close>.
\<close>

definition prm0 :: params where
  "prm0 = \<lparr>WATCH_MAX = 3, DEBUG = False,
            KFMON_TARGET_MOUNTPOINT = ''/mnt/onboard'',
            CALL_SQLITE_fails = (\<lambda>b. Some b)\<rparr>"

definition dc0 :: DaemonConfig where
  "dc0 = \<lparr>db_timeout = 500, use_syslog = False\<rparr>"

definition wc_icon :: WatchConfig where
  "wc_icon = \<lparr>filename = ''/mnt/onboard/icon.png'', action = ''/mnt/onboard/run.sh'',
               do_db_update = False, skip_db_checks = False,
               db_title = [], db_author = [], db_comment = [],
               inotify_wd = 1, wd_was_destroyed = False\<rparr>"

definition wc_zero :: WatchConfig where
  "wc_zero = \<lparr>filename = [], action = [], do_db_update = False, skip_db_checks = False,
               db_title = [], db_author = [], db_comment = [],
               inotify_wd = 0, wd_was_destroyed = False\<rparr>"

definition wcs0 :: "WatchConfig list" where
  "wcs0 = [wc_icon, wc_zero, wc_zero]"

definition row_icon :: content_row where
  "row_icon = \<lparr>ContentID = ''file:///mnt/onboard/icon.png'', ContentType = ''6'',
                ImageID = ''abc'', Title = ''icon'', Attribution = [], Description = []\<rparr>"

definition thumb_full :: string where
  "thumb_full = ''/mnt/onboard/.kobo-images/131/103/abc - N3_FULL.parsed''"

definition thumb_tile :: string where
  "thumb_tile = ''/mnt/onboard/.kobo-images/131/103/abc - N3_LIBRARY_FULL.parsed''"

definition thumb_grid :: string where
  "thumb_grid = ''/mnt/onboard/.kobo-images/131/103/abc - N3_LIBRARY_GRID.parsed''"

definition world_of :: "content_row list \<Rightarrow> string list \<Rightarrow> world" where
  "world_of rows fs = \<lparr>content = rows, files = fs, api_ok = (\<lambda>n. True),
                        step_busy = (\<lambda>n. False), journal = (\<lambda>n. False)\<rparr>"

definition world_two :: world where
  "world_two = world_of [row_icon] [thumb_full, thumb_grid]"

definition world_ready :: world where
  "world_ready = world_of [row_icon] [thumb_full, thumb_tile, thumb_grid]"

text \<open>A world with every thumbnail, in which the record of the icon is not of type 6.\<close>

definition row_other_type :: content_row where
  "row_other_type = \<lparr>ContentID = ''file:///mnt/onboard/icon.png'', ContentType = ''9'',
                      ImageID = ''abc'', Title = ''icon'', Attribution = [], Description = []\<rparr>"

definition world_other_type :: world where
  "world_other_type = world_of [row_other_type] [thumb_full, thumb_tile, thumb_grid]"

definition answers0 :: spawn_env where
  "answers0 = \<lparr>pipe_res = Some (7, 8), fork_res = 1234\<rparr>"

definition env_of :: "world \<Rightarrow> world \<Rightarrow> event_env" where
  "env_of wo wc = \<lparr>open_world = wo, close_world = wc, spawn_answers = answers0\<rparr>"

definition ev :: "int \<Rightarrow> u32 \<Rightarrow> inotify_event" where
  "ev w m = \<lparr>wd = w, mask_ev = m, len = 0\<rparr>"

text \<open>
  States of the small build: the table with no process or with the companion of
  watch 0 in entry 1, the inotify descriptor in entry 0, the flag and the trace given.
\<close>

definition pt_idle :: "int \<Rightarrow> ProcessTable" where
  "pt_idle lfd = \<lparr>spawn_pids = [- 1, - 1, - 1], spawn_fds = [lfd, - 1, - 1],
                  spawn_watchids = [- 1, - 1, - 1]\<rparr>"

definition pt_running :: "int \<Rightarrow> ProcessTable" where
  "pt_running lfd = \<lparr>spawn_pids = [- 1, 1234, - 1], spawn_fds = [lfd, 7, - 1],
                     spawn_watchids = [- 1, 0, - 1]\<rparr>"

definition pt_full :: "int \<Rightarrow> ProcessTable" where
  "pt_full lfd = \<lparr>spawn_pids = [- 1, 1234, 1240], spawn_fds = [lfd, 7, 9],
                  spawn_watchids = [- 1, 0, 1]\<rparr>"

definition st_of :: "ProcessTable \<Rightarrow> bool \<Rightarrow> action list \<Rightarrow> state" where
  "st_of pt pend tr =
     \<lparr>PT = pt, watch_config = wcs0, watch_count = 1, daemon_config = dc0,
      pending_processing = pend, trace = tr\<rparr>"

definition st_listening :: state where
  "st_listening = st_of (pt_idle 5) False []"

definition lc0 :: locals where
  "lc0 = \<lparr>destroyed_wd = False, was_unmounted = False\<rparr>"

definition st_pending :: state where
  "st_pending = st_of (pt_idle 5) True [Query_processed 0 False]"

definition spawn_trace :: "action list" where
  "spawn_trace = [Query_processed 0 True, Pipe 7 8, Fork 0 1234, Close 8,
                  Add_process 1 1234 7 0]"

text \<open>
  The icon is opened while only two thumbnails exist; it is closed when all three do;
  its watch is removed by the kernel.
\<close>

definition e_open_two :: event_in where
  "e_open_two = (ev 1 IN_OPEN, env_of world_two world_ready)"

definition e_close_ready :: event_in where
  "e_close_ready = (ev 1 IN_CLOSE, env_of world_two world_ready)"

definition e_ignored :: event_in where
  "e_ignored = (ev 1 IN_IGNORED, env_of world_ready world_ready)"

text \<open>A wakeup on which only the inotify descriptor is readable, with these reads.\<close>

definition wakeup_events :: "read_result list \<Rightarrow> wakeup" where
  "wakeup_events rs =
     \<lparr>poll_num = 1, poll_eintr = False,
      revents = (\<lambda>i. if i = 0 then POLLIN else 0),
      waited = (\<lambda>i. - 1), nohang = (\<lambda>i. 0), reads = rs\<rparr>"

text \<open>
  Two generations: in the first the icon is opened too early and then replaced (its
  watch is removed); in the second it is closed, fully processed, without being
  opened again.
\<close>

definition gen_a :: generation where
  "gen_a = \<lparr>init_fd = 5, mtab = Some [''/mnt/onboard''], mount_polls = [],
            add_watch_res = (\<lambda>i. 1),
            wakeups = [wakeup_events [Read_ok [e_open_two]],
                       wakeup_events [Read_ok [e_ignored]]]\<rparr>"

definition gen_b :: generation where
  "gen_b = \<lparr>init_fd = 6, mtab = Some [''/mnt/onboard''], mount_polls = [],
            add_watch_res = (\<lambda>i. 1),
            wakeups = [wakeup_events [Read_ok [e_close_ready]]]\<rparr>"

definition e_open_ready :: event_in where
  "e_open_ready = (ev 1 IN_OPEN, env_of world_ready world_ready)"

text \<open>Two watches, for the end of a generation.\<close>

definition wc_other :: WatchConfig where
  "wc_other = \<lparr>filename = ''/mnt/onboard/other.png'', action = ''/mnt/onboard/other.sh'',
                do_db_update = False, skip_db_checks = False,
                db_title = [], db_author = [], db_comment = [],
                inotify_wd = 2, wd_was_destroyed = False\<rparr>"

definition wcs2 :: "WatchConfig list" where
  "wcs2 = [wc_icon, wc_other, wc_zero]"

definition st2_of :: "ProcessTable \<Rightarrow> action list \<Rightarrow> state" where
  "st2_of pt tr = \<lparr>PT = pt, watch_config = wcs2, watch_count = 2,
                    daemon_config = dc0, pending_processing = False, trace = tr\<rparr>"

text \<open>
  A generation in which the kernel removes the watch of the icon, and the generation
  that follows, in which nothing happens yet.
\<close>

definition gen_c :: generation where
  "gen_c = \<lparr>init_fd = 5, mtab = Some [''/mnt/onboard''], mount_polls = [],
            add_watch_res = (\<lambda>i. int i + 1),
            wakeups = [wakeup_events [Read_ok [e_ignored]]]\<rparr>"

definition gen_d :: generation where
  "gen_d = \<lparr>init_fd = 6, mtab = Some [''/mnt/onboard''], mount_polls = [],
            add_watch_res = (\<lambda>i. int i + 1), wakeups = []\<rparr>"

definition e_unmount :: event_in where
  "e_unmount = (ev 1 IN_UNMOUNT, env_of world_ready world_ready)"

definition e_overflow :: event_in where
  "e_overflow = (ev (- 1) IN_Q_OVERFLOW, env_of world_ready world_ready)"

text \<open>
  A generation in which the volume of the icon is unmounted and the daemon reads the
  \<^verbatim>\<open>IN_UNMOUNT\<close> of the icon on one wakeup, the \<^verbatim>\<open>IN_IGNORED\<close> that follows it on
  the next.
\<close>

definition gen_e :: generation where
  "gen_e = \<lparr>init_fd = 5, mtab = Some [''/mnt/onboard''], mount_polls = [],
            add_watch_res = (\<lambda>i. int i + 1),
            wakeups = [wakeup_events [Read_ok [e_unmount]],
                       wakeup_events [Read_ok [e_ignored]]]\<rparr>"

section \<open>Properties\<close>


subsection \<open>The hash and the path components\<close>

lemma mask28_word: "(0x0fffffff::u32) = mask 28"
  by (simp add: mask_eq_exp_minus_1)

lemma bit_high_nibble: "bit (0xf0000000::nat) n \<longleftrightarrow> 28 \<le> n \<and> n < 32"
proof -
  have "(0xf0000000::nat) = push_bit 28 (mask 4)"
    by (simp add: mask_eq_exp_minus_1 push_bit_eq_mult)
  then show ?thesis
    by (simp only: bit_push_bit_iff bit_mask_iff) auto
qed

text \<open>Bits 32 and up of the shifted accumulator never reach the 28 bits kept.\<close>

lemma low28_ignores_overflow:
  assumes "\<And>n. bit (m::nat) n \<longleftrightarrow> 28 \<le> n \<and> n < 32"
  shows "take_bit 28 (take_bit 32 x XOR drop_bit 23 (take_bit 32 (take_bit 32 x AND m)))
         = take_bit 28 (x XOR drop_bit 23 (x AND m))"
  by (rule bit_eqI) (auto simp: bit_simps assms)

lemma unat_shift_add:
  "unat (push_bit 4 h + ucast b :: u32) = take_bit 32 (push_bit 4 (unat h) + unat (b::u8))"
  by (simp add: unat_word_ariths push_bit_eq_mult take_bit_eq_mod unsigned_ucast_eq mod_simps)

lemma unat_qhash_step: "unat (qhash_step h b) = spec_hash_step (unat h) (unat b)"
proof -
  have c: "unat (0xf0000000::u32) = 0xf0000000" by simp
  have l: "LENGTH(32) = 32" by simp
  note low = low28_ignores_overflow [of "0xf0000000", OF bit_high_nibble]
  show ?thesis
    unfolding qhash_step_def spec_hash_step_def Let_def mask28_word
    by (simp only: flip: take_bit_eq_mask)
       (simp only: unsigned_take_bit_eq unsigned_xor_eq unsigned_drop_bit_eq
          unsigned_and_eq unat_shift_add c l low)
qed

lemma unat_qhash_loop:
  "unat (qhash_loop h bs) = foldl spec_hash_step (unat h) (map unat bs)"
  by (induction bs arbitrary: h) (simp_all add: unat_qhash_step)

lemma unat_hash_dir1: "unat (hash_dir1 h) = unat h mod 256"
proof -
  have "hash_dir1 h = take_bit 8 h"
    by (simp add: hash_dir1_def take_bit_eq_mask mask_eq_exp_minus_1)
  then have "unat (hash_dir1 h) = take_bit 8 (unat h)"
    by (simp only: unsigned_take_bit_eq)
  then show ?thesis by (simp add: take_bit_eq_mod)
qed

lemma second_byte:
  assumes "\<And>n. bit (m::u32) n \<longleftrightarrow> 8 \<le> n \<and> n < 16"
  shows "drop_bit 8 (h AND m) = take_bit 8 (drop_bit 8 h)"
  by (rule bit_eqI) (auto simp: bit_simps assms)

lemma bit_ff00: "bit (0xff00::u32) n \<longleftrightarrow> 8 \<le> n \<and> n < 16"
proof -
  have "(0xff00::u32) = push_bit 8 (mask 8)"
    by (simp add: mask_eq_exp_minus_1 push_bit_eq_mult)
  then show ?thesis
    by (simp only: bit_push_bit_iff bit_mask_iff) (auto simp: bit_simps)
qed

lemma second_byte_nat:
  "take_bit 8 (drop_bit 8 (take_bit 32 (x::nat))) = take_bit 8 (drop_bit 8 x)"
  by (rule bit_eqI) (auto simp: bit_simps)

lemma unat_hash_dir2: "unat (hash_dir2 h) = unat h div 256 mod 256"
proof -
  have "hash_dir2 h = take_bit 8 (drop_bit 8 h)"
    unfolding hash_dir2_def using second_byte [of "0xff00", OF bit_ff00] by simp
  then have "unat (hash_dir2 h) = take_bit 8 (drop_bit 8 (unat h))"
    by (simp add: unsigned_take_bit_eq unsigned_drop_bit_eq second_byte_nat)
  then show ?thesis by (simp add: take_bit_eq_mod drop_bit_eq_div)
qed

text \<open>A fixture vector, computed by both definitions of one step.\<close>

lemma qhash_abc: "qhash (map of_char ''abc'') = 26499"
  by (simp add: qhash_def qhash_step_def)

text \<open>
  Claim C4. The hash of the code, on 32-bit unsigned integers, is the hash the
  specification words (accumulator 0; per byte: shift left 4, add the byte, XOR in
  \<open>(accumulator & 0xf0000000) >> 23\<close>, mask to 28 bits), and the two path
  components are the low byte of the hash and the next byte. Both are functions of
  the byte sequence alone, so equal sequences give equal pairs.
\<close>

theorem qhash_refines_spec:
  "unat (qhash bytes) = spec_hash (map unat bytes)
   \<and> unat (hash_dir1 (qhash bytes)) = spec_hash (map unat bytes) mod 256
   \<and> unat (hash_dir2 (qhash bytes)) = spec_hash (map unat bytes) div 256 mod 256"
  by (simp add: qhash_def spec_hash_def unat_qhash_loop unat_hash_dir1 unat_hash_dir2)

subsection \<open>The concrete worlds, evaluated\<close>

declare dec.simps [simp del]
declare wait_for_journal.simps [simp del]
declare find_watch_idx_from.simps [simp del]

lemma world_of_simps [simp]:
  "content (world_of rows fs) = rows"
  "files (world_of rows fs) = fs"
  "api_ok (world_of rows fs) n = True"
  "step_busy (world_of rows fs) n = False"
  "journal (world_of rows fs) n = False"
  by (simp_all add: world_of_def)

lemma prm0_simps [simp]:
  "WATCH_MAX prm0 = 3"
  "DEBUG prm0 = False"
  "KFMON_TARGET_MOUNTPOINT prm0 = ''/mnt/onboard''"
  "CALL_SQLITE_fails prm0 b = Some b"
  by (simp_all add: prm0_def)

lemma wc_icon_simps [simp]:
  "filename wc_icon = ''/mnt/onboard/icon.png''"
  "action wc_icon = ''/mnt/onboard/run.sh''"
  "do_db_update wc_icon = False"
  "skip_db_checks wc_icon = False"
  "inotify_wd wc_icon = 1"
  "wd_was_destroyed wc_icon = False"
  by (simp_all add: wc_icon_def)

lemma wc_zero_simps [simp]:
  "filename wc_zero = []"
  "action wc_zero = []"
  "do_db_update wc_zero = False"
  "skip_db_checks wc_zero = False"
  "inotify_wd wc_zero = 0"
  "wd_was_destroyed wc_zero = False"
  by (simp_all add: wc_zero_def)

lemma wcs0_simps [simp]:
  "length wcs0 = 3" "wcs0 ! 0 = wc_icon" "wcs0 ! Suc 0 = wc_zero" "wcs0 ! 1 = wc_zero"
  "wcs0 ! 2 = wc_zero"
  by (simp_all add: wcs0_def)

lemma row_icon_simps [simp]:
  "ContentID row_icon = ''file:///mnt/onboard/icon.png''"
  "ContentType row_icon = ''6''"
  "ImageID row_icon = ''abc''"
  by (simp_all add: row_icon_def)

lemma dec_131: "dec 131 = ''131''"
  by (simp add: dec.simps digit_char_def)

lemma dec_103: "dec 103 = ''103''"
  by (simp add: dec.simps digit_char_def)

lemma images_path_abc: "images_path prm0 ''abc'' = ''/mnt/onboard/.kobo-images/131/103''"
proof -
  have "hash_dir1 26499 = 131" "hash_dir2 26499 = 103"
    by (simp_all add: hash_dir1_def hash_dir2_def)
  then show ?thesis
    unfolding images_path_def Let_def qhash_abc
    by (simp add: snprintf_def PATH_MAX_def dec_131 dec_103)
qed

lemma thumbnail_paths_abc:
  "thumbnail_path prm0 ''abc'' ''N3_FULL'' = thumb_full"
  "thumbnail_path prm0 ''abc'' ''N3_LIBRARY_FULL'' = thumb_tile"
  "thumbnail_path prm0 ''abc'' ''N3_LIBRARY_GRID'' = thumb_grid"
  unfolding thumbnail_path_def images_path_abc
  by (simp_all add: c_str_def thumb_full_def thumb_tile_def thumb_grid_def snprintf_def
        PATH_MAX_def)

lemma thumbs_differ:
  "thumb_full \<noteq> thumb_tile" "thumb_full \<noteq> thumb_grid" "thumb_tile \<noteq> thumb_grid"
  "thumb_tile \<noteq> thumb_full" "thumb_grid \<noteq> thumb_full" "thumb_grid \<noteq> thumb_tile"
  by (simp_all add: thumb_full_def thumb_tile_def thumb_grid_def)

lemma thumbnails_num_two: "thumbnails_num prm0 world_two ''abc'' = 2"
  by (simp add: thumbnails_num_def thumbnail_paths_abc access_ok_def world_two_def
        thumbs_differ)

lemma thumbnails_num_ready: "thumbnails_num prm0 world_ready ''abc'' = 3"
  by (simp add: thumbnails_num_def thumbnail_paths_abc access_ok_def world_ready_def
        thumbs_differ)

lemma book_path_icon: "book_path_of wc_icon = ''file:///mnt/onboard/icon.png''"
  by (simp add: book_path_of_def snprintf_def PATH_MAX_def)

lemma select_rows_icon:
  "select_rows (world_of [row_icon] fs) ''file:///mnt/onboard/icon.png'' = [row_icon]"
  by (simp add: select_rows_def)

lemma itp_icon_two:
  "is_target_processed prm0 wcs0 world_two 0 b
   = Inr \<lparr>is_processed = False, db_after = [row_icon], sleeps = 0\<rparr>"
proof -
  have sel: "select_rows world_two ''file:///mnt/onboard/icon.png'' = [row_icon]"
    by (simp add: world_two_def select_rows_icon)
  have flags: "\<And>n. api_ok world_two n" "\<And>n. \<not> step_busy world_two n"
    "content world_two = [row_icon]"
    by (simp_all add: world_two_def)
  show ?thesis
    by (simp add: is_target_processed_def itp_thumbnails_def itp_update_def itp_finish_def
          sqlite3_step_def book_path_icon sel flags thumbnails_num_two)
qed

lemma itp_icon_ready:
  "is_target_processed prm0 wcs0 world_ready 0 b
   = Inr \<lparr>is_processed = True, db_after = [row_icon], sleeps = 0\<rparr>"
proof -
  have sel: "select_rows world_ready ''file:///mnt/onboard/icon.png'' = [row_icon]"
    by (simp add: world_ready_def select_rows_icon)
  have flags: "\<And>n. api_ok world_ready n" "\<And>n. \<not> step_busy world_ready n"
    "content world_ready = [row_icon]" "\<not> journal world_ready 0"
    by (simp_all add: world_ready_def)
  show ?thesis
    by (simp add: is_target_processed_def itp_thumbnails_def itp_update_def itp_finish_def
          sqlite3_step_def book_path_icon sel flags thumbnails_num_ready
          wait_for_journal.simps)
qed

lemma itp_zero_entry:
  "is_target_processed prm0 wcs0 (world_of [row_icon] fs) 1 b
   = Inr \<lparr>is_processed = False, db_after = [row_icon], sleeps = 0\<rparr>"
  by (simp add: is_target_processed_def itp_thumbnails_def itp_update_def itp_finish_def
        sqlite3_step_def book_path_of_def snprintf_def PATH_MAX_def select_rows_def)

subsection \<open>The process table keeps its shape\<close>

lemma emit_simps [simp]:
  "PT (emit as st) = PT st" "trace (emit as st) = trace st @ as"
  "watch_config (emit as st) = watch_config st" "watch_count (emit as st) = watch_count st"
  "pending_processing (emit as st) = pending_processing st"
  "daemon_config (emit as st) = daemon_config st"
  by (simp_all add: emit_def)

lemma then_do_simps [simp]: "then_do (Inr x) f = f x" "then_do (Inl h) f = Inl h"
  by (simp_all add: then_do_def)

lemma then_do_Inr_iff: "then_do m f = Inr y \<longleftrightarrow> (\<exists>x. m = Inr x \<and> f x = Inr y)"
  by (cases m) auto

lemma for_each_preserves:
  assumes "for_each body xs s = Inr s'" and "P s"
    and "\<And>x s s'. x \<in> set xs \<Longrightarrow> P s \<Longrightarrow> body x s = Inr s' \<Longrightarrow> P s'"
  shows "P s'"
  using assms
proof (induction xs arbitrary: s)
  case Nil
  then show ?case by simp
next
  case (Cons x xs)
  from Cons.prems(1) obtain s1 where s1: "body x s = Inr s1" "for_each body xs s1 = Inr s'"
    by (auto split: sum.splits)
  have "P s1" by (rule Cons.prems(3) [OF _ Cons.prems(2) s1(1)]) simp
  then show ?case
    by (rule Cons.IH [OF s1(2)]) (rule Cons.prems(3), auto)
qed

lemma spawned_from_iff: "is_watch_already_spawned_from w xs \<longleftrightarrow> w \<in> set xs"
  by (induction xs) auto

lemma distinct_filter_update_out:
  "distinct (filter P xs) \<Longrightarrow> \<not> P v \<Longrightarrow> distinct (filter P (xs[i := v]))"
proof (induction xs arbitrary: i)
  case Nil
  then show ?case by simp
next
  case (Cons x xs)
  show ?case
  proof (cases i)
    case 0
    with Cons.prems show ?thesis by (auto split: if_splits)
  next
    case (Suc k)
    have "set (xs[k := v]) \<subseteq> insert v (set xs)" by (rule set_update_subset_insert)
    with Cons Suc show ?thesis by (auto split: if_splits)
  qed
qed

lemma distinct_filter_update_new:
  "distinct (filter P xs) \<Longrightarrow> v \<notin> set xs \<Longrightarrow> distinct (filter P (xs[i := v]))"
proof (induction xs arbitrary: i)
  case Nil
  then show ?case by simp
next
  case (Cons x xs)
  show ?case
  proof (cases i)
    case 0
    with Cons.prems show ?thesis by (auto split: if_splits)
  next
    case (Suc k)
    have "set (xs[k := v]) \<subseteq> insert v (set xs)" by (rule set_update_subset_insert)
    with Cons Suc show ?thesis by (auto split: if_splits)
  qed
qed

lemma next_available_from_cases:
  "(next_available_from k fds = - 1 \<and> - 1 \<notin> set fds)
   \<or> (\<exists>i<length fds. next_available_from k fds = int (k + i) \<and> fds ! i = - 1
         \<and> (\<forall>j<i. fds ! j \<noteq> - 1))"
proof (induction fds arbitrary: k)
  case Nil
  then show ?case by simp
next
  case (Cons fd fds)
  show ?case
  proof (cases "fd = - 1")
    case True
    then show ?thesis by auto
  next
    case False
    from Cons [of "Suc k"] show ?thesis
    proof
      assume "next_available_from (Suc k) fds = - 1 \<and> - 1 \<notin> set fds"
      with False show ?thesis by simp
    next
      assume "\<exists>i<length fds. next_available_from (Suc k) fds = int (Suc k + i) \<and> fds ! i = - 1
         \<and> (\<forall>j<i. fds ! j \<noteq> - 1)"
      then obtain i where i: "i < length fds" "next_available_from (Suc k) fds = int (Suc k + i)"
        "fds ! i = - 1" "\<forall>j<i. fds ! j \<noteq> - 1" by blast
      have "\<forall>j<Suc i. (fd # fds) ! j \<noteq> - 1"
        using False i(4) by (auto simp: nth_Cons split: nat.splits)
      with i False have "Suc i < length (fd # fds) \<and> next_available_from k (fd # fds) = int (k + Suc i)
         \<and> (fd # fds) ! Suc i = - 1 \<and> (\<forall>j<Suc i. (fd # fds) ! j \<noteq> - 1)" by simp
      then show ?thesis by blast
    qed
  qed
qed

lemma good_same_table:
  "PT st' = PT st \<Longrightarrow> filter touches_slot0 (trace st') = filter touches_slot0 (trace st)
   \<Longrightarrow> good prm lfd st' = good prm lfd st"
  by (simp add: good_def pt_inv_def)

lemma pt_inv_same_table:
  "PT st' = PT st \<Longrightarrow> filter touches_slot0 (trace st') = filter touches_slot0 (trace st)
   \<Longrightarrow> pt_inv prm st' = pt_inv prm st"
  by (simp add: pt_inv_def)

lemma remove_process_good:
  assumes "good prm lfd st" and "0 < i" and "i < WATCH_MAX prm"
  shows "good prm lfd (remove_process_from_table i st)"
  using assms
  by (auto simp: good_def pt_inv_def remove_process_from_table_def
        distinct_filter_update_out nth_list_update)

lemma spawn_good:
  assumes "spawn env command w st = Inr st'" and "good prm lfd st"
    and "\<not> is_watch_already_spawned w (PT st)"
  shows "good prm lfd st'"
proof -
  from assms(1) obtain p0 p1 where p: "pipe_res env = Some (p0, p1)"
    by (auto simp: spawn_def split: option.splits)
  let ?fds = "spawn_fds (PT st)"
  from assms(1) p have pos: "0 < fork_res env" and r: "0 \<le> next_available_from 0 ?fds"
    by (auto simp: spawn_def Let_def get_next_available_pt_entry_def split: if_splits)
  from next_available_from_cases [of 0 ?fds] r obtain i where
    i: "i < length ?fds" "next_available_from 0 ?fds = int i" "?fds ! i = - 1"
    by auto
  from assms(2) i have i0: "i \<noteq> 0" by (cases i) (auto simp: good_def)
  have st': "st' = emit [Add_process i (fork_res env) (int p0) w]
      ((emit [Pipe (int p0) (int p1), Fork w (fork_res env), Close (int p1)] st)
         \<lparr>PT := add_process_to_table i (fork_res env) (int p0) w (PT st)\<rparr>)"
    using assms(1) p pos i by (simp add: spawn_def Let_def get_next_available_pt_entry_def)
  have new: "int w \<notin> set (spawn_watchids (PT st))"
    using assms(3) by (simp add: is_watch_already_spawned_def spawned_from_iff)
  show ?thesis
    using assms(2) i i0 new unfolding st'
    by (auto simp: good_def pt_inv_def add_process_to_table_def
          distinct_filter_update_new nth_list_update)
qed


lemma reap_zombie_good:
  assumes "reap_zombie nh i st = Inr st'" and "good prm lfd st" and "0 < i" and "i < WATCH_MAX prm"
  shows "good prm lfd st'"
proof -
  have lg: "good prm lfd (emit [Waitpid i p True] st)" for p
    using assms(2,3) good_same_table [of "emit [Waitpid i p True] st" st prm] by simp
  from assms(1) show ?thesis
    using assms(2-) lg remove_process_good
    by (auto simp: reap_zombie_def Let_def split: if_splits)
qed

lemma reap_closed_good:
  assumes "reap_closed rv wt i st = Inr st'" and "good prm lfd st" and "0 < i" and "i < WATCH_MAX prm"
  shows "good prm lfd st'"
proof -
  have lg: "good prm lfd (emit [Waitpid i p False] st)" for p
    using assms(2,3) good_same_table [of "emit [Waitpid i p False] st" st prm] by simp
  from assms(1) show ?thesis
    using assms(2-) lg remove_process_good
    by (auto simp: reap_closed_def Let_def split: if_splits)
qed

lemma reap_zombie_processes_good:
  assumes "reap_zombie_processes prm nh st = Inr st'" and "good prm lfd st"
  shows "good prm lfd st'"
  using assms(1) [unfolded reap_zombie_processes_def] assms(2)
  by (rule for_each_preserves) (auto intro: reap_zombie_good)

lemma reap_closed_all_good:
  assumes "for_each (reap_closed rv wt) [1..<WATCH_MAX prm] st = Inr st'" and "good prm lfd st"
  shows "good prm lfd st'"
  using assms
  by (rule for_each_preserves) (auto intro: reap_closed_good)

lemma on_open_good:
  assumes "on_open prm env w st = Inr st'" and "good prm lfd st"
  shows "good prm lfd st'"
proof -
  have "PT st' = PT st \<and> filter touches_slot0 (trace st') = filter touches_slot0 (trace st)"
    using assms(1) by (auto simp: on_open_def split: if_splits sum.splits)
  with assms(2) show ?thesis using good_same_table by blast
qed

lemma on_close_good:
  assumes "on_close prm env w st = Inr st'" and "good prm lfd st"
  shows "good prm lfd st'"
proof (cases "is_watch_already_spawned w (PT st) \<or> pending_processing st")
  case True
  with assms show ?thesis by (auto simp: on_close_def split: if_splits)
next
  case False
  from assms(1) False obtain r where
    r: "is_target_processed prm (watch_config st) (close_world env) w True = Inr r"
    by (auto simp: on_close_def split: if_splits sum.splits)
  let ?st1 = "emit [Query_processed w True] st"
  have g1: "good prm lfd ?st1" using assms(2) good_same_table [of ?st1 st prm] by simp
  show ?thesis
  proof (cases "is_processed r")
    case True
    with assms(1) False r have "spawn (spawn_answers env) (action (watch_config st ! w)) w ?st1 = Inr st'"
      by (auto simp: on_close_def Let_def split: if_splits)
    then show ?thesis using g1 False by (auto intro: spawn_good)
  next
    case notp: False
    with assms(1) False r have "st' = ?st1"
      by (auto simp: on_close_def Let_def split: if_splits)
    with g1 show ?thesis by simp
  qed
qed

lemma flag_destroyed_simps [simp]:
  "PT (flag_destroyed w st) = PT st" "trace (flag_destroyed w st) = trace st"
  "pending_processing (flag_destroyed w st) = pending_processing st"
  "watch_count (flag_destroyed w st) = watch_count st"
  "length (watch_config (flag_destroyed w st)) = length (watch_config st)"
  by (simp_all add: flag_destroyed_def)

lemma handle_event_steps:
  assumes "handle_event prm fd (event, env) (st, lc) = Inr (st', lc')"
  obtains st1 st2 sl3 sl4 where
    "(if has (mask_ev event) IN_OPEN
      then on_open prm env (fst (find_watch_idx st (wd event))) st else Inr st) = Inr st1"
    "(if has (mask_ev event) IN_CLOSE
      then on_close prm env (fst (find_watch_idx st (wd event))) st1 else Inr st1) = Inr st2"
    "(if has (mask_ev event) IN_UNMOUNT
      then on_unmount (fst (find_watch_idx st (wd event))) (st2, lc) else Inr (st2, lc)) = Inr sl3"
    "(if has (mask_ev event) IN_IGNORED
      then on_ignored (fst (find_watch_idx st (wd event))) sl3 else Inr sl3) = Inr sl4"
    "(if has (mask_ev event) IN_Q_OVERFLOW
      then on_q_overflow fd (fst (find_watch_idx st (wd event))) sl4 else Inr sl4) = Inr (st', lc')"
  using assms unfolding handle_event_def Let_def prod.case then_do_Inr_iff by blast

lemma on_unmount_table:
  assumes "(if c then on_unmount w sl else Inr sl) = Inr sl'"
  shows "fst sl' = fst sl"
  using assms by (cases sl) (auto simp: on_unmount_def split: if_splits)

lemma on_ignored_table:
  assumes "(if c then on_ignored w sl else Inr sl) = Inr sl'"
  shows "PT (fst sl') = PT (fst sl) \<and> trace (fst sl') = trace (fst sl)
     \<and> pending_processing (fst sl') = pending_processing (fst sl)"
  using assms by (cases sl) (auto simp: on_ignored_def split: if_splits)

lemma on_q_overflow_table:
  assumes "(if c then on_q_overflow fd w sl else Inr sl) = Inr sl'"
  shows "PT (fst sl') = PT (fst sl)
     \<and> filter touches_slot0 (trace (fst sl')) = filter touches_slot0 (trace (fst sl))
     \<and> filter is_fork (trace (fst sl')) = filter is_fork (trace (fst sl))
     \<and> pending_processing (fst sl') = pending_processing (fst sl)"
  using assms by (cases sl) (auto simp: on_q_overflow_def split: if_splits)

lemma handle_event_good:
  assumes "handle_event prm fd e (st, lc) = Inr (st', lc')" and "good prm lfd st"
  shows "good prm lfd st'"
proof -
  obtain event env where e: "e = (event, env)" by (cases e)
  from assms(1) [unfolded e] obtain st1 st2 sl3 sl4 where
    s1: "(if has (mask_ev event) IN_OPEN
      then on_open prm env (fst (find_watch_idx st (wd event))) st else Inr st) = Inr st1" and
    s2: "(if has (mask_ev event) IN_CLOSE
      then on_close prm env (fst (find_watch_idx st (wd event))) st1 else Inr st1) = Inr st2" and
    s3: "(if has (mask_ev event) IN_UNMOUNT
      then on_unmount (fst (find_watch_idx st (wd event))) (st2, lc) else Inr (st2, lc)) = Inr sl3" and
    s4: "(if has (mask_ev event) IN_IGNORED
      then on_ignored (fst (find_watch_idx st (wd event))) sl3 else Inr sl3) = Inr sl4" and
    s5: "(if has (mask_ev event) IN_Q_OVERFLOW
      then on_q_overflow fd (fst (find_watch_idx st (wd event))) sl4 else Inr sl4) = Inr (st', lc')"
    by (rule handle_event_steps)
  from s1 assms(2) have "good prm lfd st1" by (auto intro: on_open_good split: if_splits)
  with s2 have g2: "good prm lfd st2" by (auto intro: on_close_good split: if_splits)
  from on_unmount_table [OF s3] on_ignored_table [OF s4] on_q_overflow_table [OF s5]
  have "PT st' = PT st2 \<and> filter touches_slot0 (trace st') = filter touches_slot0 (trace st2)"
    by simp
  with g2 show ?thesis using good_same_table by blast
qed

lemma handle_batch_good:
  assumes "for_each (handle_event prm fd) evs sl = Inr sl'" and "good prm lfd (fst sl)"
  shows "good prm lfd (fst sl')"
  using assms
  by (rule for_each_preserves [where P = "\<lambda>sl. good prm lfd (fst sl)"])
     (auto intro: handle_event_good)

lemma remove_other_watch_table:
  "PT (remove_other_watch fd u st i) = PT st
   \<and> filter touches_slot0 (trace (remove_other_watch fd u st i)) = filter touches_slot0 (trace st)
   \<and> pending_processing (remove_other_watch fd u st i) = pending_processing st"
  by (simp add: remove_other_watch_def)

lemma remove_other_watches_table:
  "PT (remove_other_watches fd u st) = PT st
   \<and> filter touches_slot0 (trace (remove_other_watches fd u st)) = filter touches_slot0 (trace st)
   \<and> pending_processing (remove_other_watches fd u st) = pending_processing st"
proof -
  have "PT (foldl (remove_other_watch fd u) st is) = PT st
   \<and> filter touches_slot0 (trace (foldl (remove_other_watch fd u) st is)) = filter touches_slot0 (trace st)
   \<and> pending_processing (foldl (remove_other_watch fd u) st is) = pending_processing st" for "is"
    by (induction "is" arbitrary: st) (simp_all add: remove_other_watch_table)
  then show ?thesis by (simp add: remove_other_watches_def)
qed

lemma handle_events_loop_good:
  assumes "handle_events_loop prm fd rs sl = Inr sl'" and "good prm lfd (fst sl)"
  shows "good prm lfd (fst sl')"
  using assms
proof (induction prm fd rs sl rule: handle_events_loop.induct)
  case (4 prm fd evs rest sl)
  show ?case
  proof (cases "evs = []")
    case True
    with 4 show ?thesis by simp
  next
    case False
    with "4.prems"(1) obtain st lc where b: "for_each (handle_event prm fd) evs sl = Inr (st, lc)"
      by (auto split: sum.splits)
    with "4.prems"(2) have g: "good prm lfd st" using handle_batch_good by fastforce
    show ?thesis
    proof (cases "destroyed_wd lc")
      case True
      with "4.prems"(1) False b have "sl' = (remove_other_watches fd (was_unmounted lc) st, lc)"
        by simp
      with g show ?thesis
        using good_same_table remove_other_watches_table by (metis fst_conv)
    next
      case nd: False
      with "4.prems"(1) False b have "handle_events_loop prm fd rest (st, lc) = Inr sl'" by simp
      with "4.IH" [OF False b _ nd] g show ?thesis by simp
    qed
  qed
qed simp_all

lemma handle_events_good:
  assumes "handle_events prm fd rs st = Inr (st', d)" and "good prm lfd st"
  shows "good prm lfd st'"
  using assms handle_events_loop_good [of prm fd rs "(st, \<lparr>destroyed_wd = False, was_unmounted = False\<rparr>)"]
  by (auto simp: handle_events_def split: sum.splits prod.splits)

lemma main_iteration_good:
  assumes "main_iteration prm fd wk st = Inr (st', stop)" and "good prm lfd st"
  shows "good prm lfd st'"
proof (cases "poll_num wk > 0")
  case False
  with assms show ?thesis by (auto simp: main_iteration_def split: if_splits)
next
  case True
  let ?rv = "poll_revents wk (PT st)"
  from assms(1) True obtain s1 where
    s1: "for_each (reap_closed ?rv (waited wk)) [1..<WATCH_MAX prm] st = Inr s1" and
    k: "(if ?rv 0 AND POLLIN \<noteq> 0
         then then_do (reap_zombie_processes prm (nohang wk) s1)
                (\<lambda>st2. handle_events prm fd (reads wk) st2)
         else Inr (s1, False)) = Inr (st', stop)"
    by (auto simp: main_iteration_def Let_def then_do_Inr_iff split: if_splits)
  from s1 assms(2) have g1: "good prm lfd s1" by (rule reap_closed_all_good)
  show ?thesis
  proof (cases "?rv 0 AND POLLIN \<noteq> 0")
    case False
    with k g1 show ?thesis by simp
  next
    case rd: True
    with k obtain s2 where s2: "reap_zombie_processes prm (nohang wk) s1 = Inr s2"
      and h: "handle_events prm fd (reads wk) s2 = Inr (st', stop)"
      by (auto simp: then_do_Inr_iff)
    from s2 g1 have "good prm lfd s2" by (rule reap_zombie_processes_good)
    with h show ?thesis by (rule handle_events_good)
  qed
qed

lemma listen_good:
  assumes "listen prm fd wks st = Inr (st', ended)" and "good prm lfd st"
  shows "good prm lfd st'"
  using assms
proof (induction wks arbitrary: st)
  case Nil
  then show ?case by simp
next
  case (Cons wk wks)
  from Cons.prems(1) obtain s1 stop where m: "main_iteration prm fd wk st = Inr (s1, stop)"
    by (auto split: sum.splits)
  from m Cons.prems(2) have g: "good prm lfd s1" by (rule main_iteration_good)
  show ?case
  proof (cases stop)
    case True
    with Cons.prems(1) m have "st' = emit [Close fd] s1" by simp
    with g show ?thesis using good_same_table [of "emit [Close fd] s1" s1 prm] by simp
  next
    case False
    with Cons.prems(1) m have "listen prm fd wks s1 = Inr (st', ended)" by simp
    then show ?thesis using g by (rule Cons.IH)
  qed
qed

lemma add_watch_table:
  assumes "add_watch g fd i st = Inr st'"
  shows "PT st' = PT st \<and> filter touches_slot0 (trace st') = filter touches_slot0 (trace st)
     \<and> pending_processing st' = pending_processing st"
  using assms by (auto simp: add_watch_def Let_def split: if_splits)

lemma add_watches_table:
  assumes "for_each (add_watch g fd) is st = Inr st'"
  shows "PT st' = PT st \<and> filter touches_slot0 (trace st') = filter touches_slot0 (trace st)
     \<and> pending_processing st' = pending_processing st"
  using assms
proof (induction "is" arbitrary: st)
  case Nil
  then show ?case by simp
next
  case (Cons i "is")
  then obtain s1 where "add_watch g fd i st = Inr s1" "for_each (add_watch g fd) is s1 = Inr st'"
    by (auto split: sum.splits)
  with Cons.IH [of s1] add_watch_table [of g fd i st s1] show ?case by simp
qed

lemma setup_generation_good:
  assumes "setup_generation prm g st = Inr st'" and "pt_inv prm st"
  shows "good prm (init_fd g) st'"
proof -
  from assms(1) obtain s1 where
    fd: "init_fd g \<noteq> - 1" and
    s1: "for_each (add_watch g (init_fd g)) [0..<watch_count st] (emit [Inotify_init1 (init_fd g)] st) = Inr s1" and
    st': "st' = s1\<lparr>PT := (PT s1)\<lparr>spawn_fds := (spawn_fds (PT s1))[0 := init_fd g]\<rparr>\<rparr>"
    by (auto simp: setup_generation_def Let_def then_do_Inr_iff split: if_splits)
  from add_watches_table [OF s1] have
    "PT s1 = PT st" "filter touches_slot0 (trace s1) = filter touches_slot0 (trace st)" by simp_all
  with assms(2) fd show ?thesis unfolding st'
    by (auto simp: good_def pt_inv_def nth_list_update)
qed

lemma good_pt_inv: "good prm lfd st \<Longrightarrow> pt_inv prm st"
  by (simp add: good_def)

lemma run_generation_good:
  assumes "run_generation prm g st = Inr (st', ended)" and "pt_inv prm st"
  shows "good prm (init_fd g) st'"
  using assms
  by (auto simp: run_generation_def then_do_Inr_iff dest: setup_generation_good listen_good)

lemma main_loop_inv:
  assumes "main_loop prm gs st = Inr st'" and "pt_inv prm st"
  shows "pt_inv prm st' \<and> (gs \<noteq> [] \<longrightarrow> (\<exists>g \<in> set gs. good prm (init_fd g) st'))"
  using assms
proof (induction gs arbitrary: st)
  case Nil
  then show ?case by simp
next
  case (Cons g gs)
  from Cons.prems(1) obtain s1 ended where r: "run_generation prm g st = Inr (s1, ended)"
    by (auto split: sum.splits)
  from r Cons.prems(2) have g1: "good prm (init_fd g) s1" by (rule run_generation_good)
  show ?case
  proof (cases "ended \<and> gs \<noteq> []")
    case True
    with Cons.prems(1) r have "main_loop prm gs s1 = Inr st'" by simp
    with Cons.IH [of s1] g1 True show ?thesis by (auto simp: good_def)
  next
    case False
    with Cons.prems(1) r have "st' = s1" by (cases gs) (auto split: if_splits)
    with g1 show ?thesis by (auto simp: good_def)
  qed
qed

lemma initial_state_inv: "0 < WATCH_MAX prm \<Longrightarrow> pt_inv prm (initial_state prm dc wcs n)"
  by (auto simp: pt_inv_def initial_state_def init_process_table_def)

lemma main_inv:
  assumes "main prm dc wcs n gs = Inr st" and "0 < WATCH_MAX prm"
  shows "pt_inv prm st \<and> (gs \<noteq> [] \<longrightarrow> (\<exists>g \<in> set gs. good prm (init_fd g) st))"
  using assms main_loop_inv initial_state_inv unfolding main_def by blast

subsection \<open>The pending flag\<close>

lemma then_do_Inl_iff:
  "then_do m f = Inl h \<longleftrightarrow> m = Inl h \<or> (\<exists>x. m = Inr x \<and> f x = Inl h)"
  by (cases m) auto

lemma remove_process_pending [simp]:
  "pending_processing (remove_process_from_table i st) = pending_processing st"
  by (simp add: remove_process_from_table_def)

lemma spawn_pending:
  "spawn env c w st = Inr st' \<Longrightarrow> pending_processing st' = pending_processing st"
  by (auto simp: spawn_def Let_def split: option.splits if_splits)

lemma on_close_pending:
  "on_close prm env w st = Inr st' \<Longrightarrow> pending_processing st' = pending_processing st"
  by (auto simp: on_close_def Let_def split: if_splits sum.splits dest: spawn_pending)

lemma on_close_suppressed:
  "pending_processing st \<Longrightarrow> on_close prm env w st = Inr st' \<Longrightarrow> st' = st"
  by (auto simp: on_close_def split: if_splits)

lemma on_close_suppressed_halt:
  "pending_processing st \<Longrightarrow> on_close prm env w st = Inl h \<Longrightarrow> h = Out_of_bounds"
  by (auto simp: on_close_def split: if_splits)

lemma handle_event_suppressed:
  assumes "handle_event prm fd e (st, lc) = Inr (st', lc')" and "\<not> has (mask_ev (fst e)) IN_OPEN"
    and "pending_processing st"
  shows "PT st' = PT st \<and> spawns st' = spawns st \<and> pending_processing st'"
proof -
  obtain event env where e: "e = (event, env)" by (cases e)
  from assms(1) [unfolded e] obtain st1 st2 sl3 sl4 where
    s1: "(if has (mask_ev event) IN_OPEN
      then on_open prm env (fst (find_watch_idx st (wd event))) st else Inr st) = Inr st1" and
    s2: "(if has (mask_ev event) IN_CLOSE
      then on_close prm env (fst (find_watch_idx st (wd event))) st1 else Inr st1) = Inr st2" and
    s3: "(if has (mask_ev event) IN_UNMOUNT
      then on_unmount (fst (find_watch_idx st (wd event))) (st2, lc) else Inr (st2, lc)) = Inr sl3" and
    s4: "(if has (mask_ev event) IN_IGNORED
      then on_ignored (fst (find_watch_idx st (wd event))) sl3 else Inr sl3) = Inr sl4" and
    s5: "(if has (mask_ev event) IN_Q_OVERFLOW
      then on_q_overflow fd (fst (find_watch_idx st (wd event))) sl4 else Inr sl4) = Inr (st', lc')"
    by (rule handle_event_steps)
  from s1 assms(2) e have "st1 = st" by simp
  with s2 assms(3) have "st2 = st" by (auto dest: on_close_suppressed split: if_splits)
  with on_unmount_table [OF s3] on_ignored_table [OF s4] on_q_overflow_table [OF s5] assms(3)
  show ?thesis by (simp add: spawns_def)
qed

lemma handle_event_suppressed_halt:
  assumes "handle_event prm fd e (st, lc) = Inl h" and "\<not> has (mask_ev (fst e)) IN_OPEN"
    and "pending_processing st"
  shows "h = Out_of_bounds"
proof -
  obtain event env where e: "e = (event, env)" by (cases e)
  have c: "on_close prm env w st = Inl h \<Longrightarrow> h = Out_of_bounds" for w
    using assms(3) by (rule on_close_suppressed_halt)
  have c': "on_close prm env w st = Inr s \<Longrightarrow> s = st" for w s
    using assms(3) by (rule on_close_suppressed)
  from assms(1,2) show ?thesis
    unfolding handle_event_def e
    by (auto simp: Let_def then_do_Inl_iff on_unmount_def on_ignored_def on_q_overflow_def
          split: if_splits dest: c c')
qed

lemma handle_batch_suppressed:
  assumes "for_each (handle_event prm fd) evs (st, lc) = Inr (st', lc')" and "no_open evs"
    and "pending_processing st"
  shows "PT st' = PT st \<and> spawns st' = spawns st \<and> pending_processing st'"
proof -
  have "PT (fst (st', lc')) = PT st \<and> spawns (fst (st', lc')) = spawns st
        \<and> pending_processing (fst (st', lc'))"
    using assms(1)
  proof (rule for_each_preserves [where P = "\<lambda>sl. PT (fst sl) = PT st \<and> spawns (fst sl) = spawns st
        \<and> pending_processing (fst sl)"])
    show "PT (fst (st, lc)) = PT st \<and> spawns (fst (st, lc)) = spawns st
        \<and> pending_processing (fst (st, lc))" using assms(3) by simp
  next
    fix x s s'
    assume x: "x \<in> set evs" and p: "PT (fst s) = PT st \<and> spawns (fst s) = spawns st
        \<and> pending_processing (fst s)" and h: "handle_event prm fd x s = Inr s'"
    from x assms(2) have "\<not> has (mask_ev (fst x)) IN_OPEN" by (simp add: no_open_def list_all_iff)
    with handle_event_suppressed [of prm fd x "fst s" "snd s" "fst s'" "snd s'"] h p
    show "PT (fst s') = PT st \<and> spawns (fst s') = spawns st \<and> pending_processing (fst s')"
      by simp
  qed
  then show ?thesis by simp
qed

lemma on_open_tracked:
  "is_watch_already_spawned w (PT st) \<Longrightarrow> on_open prm env w st = Inr st' \<Longrightarrow> st' = st"
  by (auto simp: on_open_def split: if_splits)

lemma on_close_tracked:
  "is_watch_already_spawned w (PT st) \<Longrightarrow> on_close prm env w st = Inr st' \<Longrightarrow> st' = st"
  by (auto simp: on_close_def split: if_splits)

subsection \<open>What an event does to the watches\<close>

lemma find_watch_idx_from_same:
  assumes "\<forall>j. inotify_wd (wcs' ! j) = inotify_wd (wcs ! j)"
  shows "find_watch_idx_from wcs' count w i = find_watch_idx_from wcs count w i"
proof (induction "count - i" arbitrary: i)
  case 0
  then have "\<not> i < count" by simp
  then show ?case
    by (subst find_watch_idx_from.simps, subst (2) find_watch_idx_from.simps) simp
next
  case (Suc n)
  then have lt: "i < count" and n: "n = count - Suc i" by simp_all
  from assms have e: "inotify_wd (wcs' ! i) = inotify_wd (wcs ! i)" by simp
  from Suc.hyps(1) [OF n]
  have "find_watch_idx_from wcs' count w (Suc i) = find_watch_idx_from wcs count w (Suc i)" .
  with lt e show ?case
    by (subst find_watch_idx_from.simps, subst (2) find_watch_idx_from.simps) simp
qed

lemma find_watch_idx_same:
  assumes "watch_count st' = watch_count st"
    and "\<forall>j. inotify_wd (watch_config st' ! j) = inotify_wd (watch_config st ! j)"
  shows "find_watch_idx st' w = find_watch_idx st w"
  unfolding find_watch_idx_def assms(1) using assms(2) by (rule find_watch_idx_from_same)

lemma spawn_config:
  "spawn env c w st = Inr st' \<Longrightarrow>
   watch_config st' = watch_config st \<and> watch_count st' = watch_count st"
  by (auto simp: spawn_def Let_def split: option.splits if_splits)

lemma on_open_config:
  "(if c then on_open prm env w st else Inr st) = Inr st' \<Longrightarrow>
   watch_config st' = watch_config st \<and> watch_count st' = watch_count st"
  by (auto simp: on_open_def split: if_splits sum.splits)

lemma on_close_config:
  "(if c then on_close prm env w st else Inr st) = Inr st' \<Longrightarrow>
   watch_config st' = watch_config st \<and> watch_count st' = watch_count st"
  by (auto simp: on_close_def Let_def split: if_splits sum.splits dest: spawn_config)

lemma flag_destroyed_nth:
  "w < length (watch_config st) \<Longrightarrow>
   watch_config (flag_destroyed w st) ! i
   = (if i = w then (watch_config st ! i)\<lparr>wd_was_destroyed := True\<rparr> else watch_config st ! i)"
  by (simp add: flag_destroyed_def)

lemma on_ignored_config:
  assumes "(if c then on_ignored w sl else Inr sl) = Inr sl'"
  shows "watch_count (fst sl') = watch_count (fst sl)
     \<and> length (watch_config (fst sl')) = length (watch_config (fst sl))
     \<and> watch_config (fst sl') ! i
       = (if c \<and> w = i then (watch_config (fst sl) ! i)\<lparr>wd_was_destroyed := True\<rparr>
          else watch_config (fst sl) ! i)"
  using assms by (cases sl) (auto simp: on_ignored_def flag_destroyed_nth split: if_splits)

lemma on_q_overflow_config:
  assumes "(if c then on_q_overflow fd w sl else Inr sl) = Inr sl'"
  shows "watch_count (fst sl') = watch_count (fst sl)
     \<and> length (watch_config (fst sl')) = length (watch_config (fst sl))
     \<and> watch_config (fst sl') ! i
       = (if c \<and> w = i then (watch_config (fst sl) ! i)\<lparr>wd_was_destroyed := True\<rparr>
          else watch_config (fst sl) ! i)"
  using assms by (cases sl) (auto simp: on_q_overflow_def flag_destroyed_nth split: if_splits)

lemma handle_event_config:
  assumes "handle_event prm fd e (st, lc) = Inr (st', lc')"
  shows "watch_count st' = watch_count st
     \<and> length (watch_config st') = length (watch_config st)
     \<and> watch_config st' ! i
       = (if ends_generation e \<and> fst (find_watch_idx st (wd (fst e))) = i
          then (watch_config st ! i)\<lparr>wd_was_destroyed := True\<rparr> else watch_config st ! i)"
proof -
  obtain event env where e: "e = (event, env)" by (cases e)
  from assms [unfolded e] obtain st1 st2 sl3 sl4 where
    s1: "(if has (mask_ev event) IN_OPEN
      then on_open prm env (fst (find_watch_idx st (wd event))) st else Inr st) = Inr st1" and
    s2: "(if has (mask_ev event) IN_CLOSE
      then on_close prm env (fst (find_watch_idx st (wd event))) st1 else Inr st1) = Inr st2" and
    s3: "(if has (mask_ev event) IN_UNMOUNT
      then on_unmount (fst (find_watch_idx st (wd event))) (st2, lc) else Inr (st2, lc)) = Inr sl3" and
    s4: "(if has (mask_ev event) IN_IGNORED
      then on_ignored (fst (find_watch_idx st (wd event))) sl3 else Inr sl3) = Inr sl4" and
    s5: "(if has (mask_ev event) IN_Q_OVERFLOW
      then on_q_overflow fd (fst (find_watch_idx st (wd event))) sl4 else Inr sl4) = Inr (st', lc')"
    by (rule handle_event_steps)
  from on_open_config [OF s1] on_close_config [OF s2] on_unmount_table [OF s3]
  have c3: "watch_config (fst sl3) = watch_config st" "watch_count (fst sl3) = watch_count st"
    by simp_all
  from on_ignored_config [OF s4, of i] on_q_overflow_config [OF s5, of i] c3
  show ?thesis by (auto simp: e ends_generation_def)
qed

lemma handle_event_keeps_watches:
  assumes "handle_event prm fd e (st, lc) = Inr (st', lc')"
  shows "watch_count st' = watch_count st
     \<and> (\<forall>j. inotify_wd (watch_config st' ! j) = inotify_wd (watch_config st ! j))"
  using handle_event_config [OF assms] by simp


subsection \<open>Where the flag is written\<close>

lemma spawn_queries:
  "spawn env c w st = Inr st' \<Longrightarrow>
   filter is_open_query (trace st') = filter is_open_query (trace st)"
  by (auto simp: spawn_def Let_def split: option.splits if_splits)

lemma on_close_queries:
  "(if c then on_close prm env w st else Inr st) = Inr st' \<Longrightarrow>
   filter is_open_query (trace st') = filter is_open_query (trace st)"
  by (auto simp: on_close_def Let_def split: if_splits sum.splits dest: spawn_queries)

lemma on_q_overflow_queries:
  assumes "(if c then on_q_overflow fd w sl else Inr sl) = Inr sl'"
  shows "filter is_open_query (trace (fst sl')) = filter is_open_query (trace (fst sl))"
  using assms by (cases sl) (auto simp: on_q_overflow_def split: if_splits)

lemma on_open_fresh:
  assumes "on_open prm env w st = Inr st1" and "\<not> is_watch_already_spawned w (PT st)"
  shows "\<exists>r. is_target_processed prm (watch_config st) (open_world env) w False = Inr r
             \<and> pending_processing st1 = (\<not> is_processed r)
             \<and> trace st1 = trace st @ [Query_processed w False]"
  using assms by (auto simp: on_open_def split: if_splits sum.splits)

lemma handle_event_flag:
  assumes "handle_event prm fd (event, env) (st, lc) = Inr (st', lc')"
  shows "if fresh_open st event
         then (\<exists>r. is_target_processed prm (watch_config st) (open_world env)
                      (fst (find_watch_idx st (wd event))) False = Inr r
                   \<and> pending_processing st' = (\<not> is_processed r))
              \<and> filter is_open_query (trace st')
                  = filter is_open_query (trace st)
                    @ [Query_processed (fst (find_watch_idx st (wd event))) False]
         else pending_processing st' = pending_processing st
              \<and> filter is_open_query (trace st') = filter is_open_query (trace st)"
proof -
  let ?w = "fst (find_watch_idx st (wd event))"
  from assms obtain st1 st2 sl3 sl4 where
    s1: "(if has (mask_ev event) IN_OPEN then on_open prm env ?w st else Inr st) = Inr st1" and
    s2: "(if has (mask_ev event) IN_CLOSE then on_close prm env ?w st1 else Inr st1) = Inr st2" and
    s3: "(if has (mask_ev event) IN_UNMOUNT then on_unmount ?w (st2, lc) else Inr (st2, lc))
         = Inr sl3" and
    s4: "(if has (mask_ev event) IN_IGNORED then on_ignored ?w sl3 else Inr sl3) = Inr sl4" and
    s5: "(if has (mask_ev event) IN_Q_OVERFLOW then on_q_overflow fd ?w sl4 else Inr sl4)
         = Inr (st', lc')"
    by (rule handle_event_steps)
  from s2 have p2: "pending_processing st2 = pending_processing st1"
    by (auto dest: on_close_pending split: if_splits)
  from on_unmount_table [OF s3] on_ignored_table [OF s4] on_q_overflow_table [OF s5]
    on_q_overflow_queries [OF s5]
  have t: "pending_processing st' = pending_processing st2"
    "filter is_open_query (trace st') = filter is_open_query (trace st2)" by simp_all
  note q2 = on_close_queries [OF s2]
  show ?thesis
  proof (cases "fresh_open st event")
    case True
    then have o: "has (mask_ev event) IN_OPEN" and u: "\<not> is_watch_already_spawned ?w (PT st)"
      by (simp_all add: fresh_open_def)
    from s1 o have "on_open prm env ?w st = Inr st1" by simp
    from on_open_fresh [OF this u] obtain r where
      "is_target_processed prm (watch_config st) (open_world env) ?w False = Inr r"
      "pending_processing st1 = (\<not> is_processed r)"
      "trace st1 = trace st @ [Query_processed ?w False]" by blast
    with True p2 t q2 show ?thesis by auto
  next
    case False
    with s1 have "st1 = st"
      by (auto simp: fresh_open_def on_open_def split: if_splits)
    with False p2 t q2 show ?thesis by simp
  qed
qed

lemma handle_event_quiet:
  assumes "handle_event prm fd e (st, lc) = Inr (st', lc')" and "\<not> fresh_open st (fst e)"
    and "pending_processing st"
  shows "PT st' = PT st \<and> spawns st' = spawns st \<and> pending_processing st'"
proof -
  obtain event env where e: "e = (event, env)" by (cases e)
  let ?w = "fst (find_watch_idx st (wd event))"
  from assms(1) [unfolded e] obtain st1 st2 sl3 sl4 where
    s1: "(if has (mask_ev event) IN_OPEN then on_open prm env ?w st else Inr st) = Inr st1" and
    s2: "(if has (mask_ev event) IN_CLOSE then on_close prm env ?w st1 else Inr st1) = Inr st2" and
    s3: "(if has (mask_ev event) IN_UNMOUNT then on_unmount ?w (st2, lc) else Inr (st2, lc))
         = Inr sl3" and
    s4: "(if has (mask_ev event) IN_IGNORED then on_ignored ?w sl3 else Inr sl3) = Inr sl4" and
    s5: "(if has (mask_ev event) IN_Q_OVERFLOW then on_q_overflow fd ?w sl4 else Inr sl4)
         = Inr (st', lc')"
    by (rule handle_event_steps)
  from s1 assms(2) e have "st1 = st"
    by (auto simp: fresh_open_def on_open_def split: if_splits)
  with s2 assms(3) have "st2 = st" by (auto dest: on_close_suppressed split: if_splits)
  with on_unmount_table [OF s3] on_ignored_table [OF s4] on_q_overflow_table [OF s5] assms(3)
  show ?thesis by (simp add: spawns_def)
qed

lemma fresh_open_same:
  assumes "PT s = PT st" and "watch_count s = watch_count st"
    and "\<forall>j. inotify_wd (watch_config s ! j) = inotify_wd (watch_config st ! j)"
  shows "fresh_open s event = fresh_open st event"
  unfolding fresh_open_def assms(1) find_watch_idx_same [OF assms(2,3)] ..

lemma handle_batch_quiet:
  assumes "for_each (handle_event prm fd) evs (st, lc) = Inr (st', lc')"
    and "list_all (\<lambda>e. \<not> fresh_open st (fst e)) evs"
    and "pending_processing st"
  shows "PT st' = PT st \<and> spawns st' = spawns st \<and> pending_processing st'
     \<and> (\<forall>event. fresh_open st' event = fresh_open st event)"
proof -
  let ?P = "\<lambda>sl. PT (fst sl) = PT st \<and> spawns (fst sl) = spawns st
        \<and> pending_processing (fst sl) \<and> watch_count (fst sl) = watch_count st
        \<and> (\<forall>j. inotify_wd (watch_config (fst sl) ! j) = inotify_wd (watch_config st ! j))"
  have "?P (st', lc')"
    using assms(1)
  proof (rule for_each_preserves [where P = ?P])
    show "?P (st, lc)" using assms(3) by simp
  next
    fix x s s'
    assume x: "x \<in> set evs" and p: "?P s" and h: "handle_event prm fd x s = Inr s'"
    from p have same: "fresh_open (fst s) (fst x) = fresh_open st (fst x)"
      by (intro fresh_open_same) simp_all
    from x assms(2) have "\<not> fresh_open st (fst x)" by (simp add: list_all_iff)
    with same have q: "\<not> fresh_open (fst s) (fst x)" by simp
    from h have h': "handle_event prm fd x (fst s, snd s) = Inr (fst s', snd s')" by simp
    from handle_event_quiet [OF h' q] handle_event_keeps_watches [OF h'] p
    show "?P s'" by simp
  qed
  then have "?P (st', lc')" .
  then have "PT st' = PT st" "watch_count st' = watch_count st"
    "\<forall>j. inotify_wd (watch_config st' ! j) = inotify_wd (watch_config st ! j)"
    and r: "spawns st' = spawns st" "pending_processing st'" by simp_all
  from fresh_open_same [OF this(1-3)] r \<open>PT st' = PT st\<close> show ?thesis by simp
qed

subsection \<open>The flag over a run of the main loop\<close>

lemma flag_keptI:
  assumes "trace st' = trace st @ tr"
    and "filter is_open_query tr = [] \<Longrightarrow> pending_processing st' = pending_processing st"
  shows "flag_kept st st'"
  unfolding flag_kept_def using assms by blast

lemma flag_kept_refl [simp]: "flag_kept st st"
  by (rule flag_keptI [where tr = "[]"]) simp_all

lemma flag_kept_trans:
  assumes "flag_kept a b" and "flag_kept b c"
  shows "flag_kept a c"
proof -
  from assms(1) obtain t1 where t1: "trace b = trace a @ t1"
    "filter is_open_query t1 = [] \<longrightarrow> pending_processing b = pending_processing a"
    unfolding flag_kept_def by blast
  from assms(2) obtain t2 where t2: "trace c = trace b @ t2"
    "filter is_open_query t2 = [] \<longrightarrow> pending_processing c = pending_processing b"
    unfolding flag_kept_def by blast
  show ?thesis
  proof (rule flag_keptI [where tr = "t1 @ t2"])
    show "trace c = trace a @ t1 @ t2" using t1(1) t2(1) by simp
  next
    assume "filter is_open_query (t1 @ t2) = []"
    then have "filter is_open_query t1 = []" "filter is_open_query t2 = []" by simp_all
    with t1(2) t2(2) show "pending_processing c = pending_processing a" by simp
  qed
qed

lemma flag_kept_unchanged:
  "flag_kept st st' \<Longrightarrow> filter is_open_query (trace st') = filter is_open_query (trace st)
   \<Longrightarrow> pending_processing st' = pending_processing st"
  unfolding flag_kept_def by auto

lemma flag_kept_emit:
  "filter is_open_query as = [] \<Longrightarrow> flag_kept st (emit as st)"
  by (rule flag_keptI [where tr = as]) simp_all

lemma flag_kept_table [simp]: "flag_kept st (st\<lparr>PT := pt\<rparr>)"
  by (rule flag_keptI [where tr = "[]"]) simp_all

lemma for_each_kept:
  assumes "for_each body xs st = Inr st'"
    and "\<And>x s s'. body x s = Inr s' \<Longrightarrow> flag_kept s s'"
  shows "flag_kept st st'"
  using assms(1)
proof (rule for_each_preserves [where P = "flag_kept st"])
  fix x s s'
  assume "flag_kept st s" and "body x s = Inr s'"
  then show "flag_kept st s'" using assms(2) flag_kept_trans by blast
qed simp

lemma spawn_kept: "spawn env c w st = Inr st' \<Longrightarrow> flag_kept st st'"
  by (auto simp: spawn_def Let_def split: option.splits if_splits
        intro!: flag_keptI [where tr = "[Pipe a b, Fork w p, Close d, Add_process i p f w]" for a b p d i f])

lemma remove_process_kept: "flag_kept st (remove_process_from_table i st)"
  by (rule flag_keptI [where tr = "[Close (spawn_fds (PT st) ! i), Remove_process i]"])
     (simp_all add: remove_process_from_table_def)

lemma reap_zombie_kept: "reap_zombie nh i st = Inr st' \<Longrightarrow> flag_kept st st'"
  by (auto simp: reap_zombie_def Let_def split: if_splits
        intro: flag_kept_trans [OF flag_kept_emit remove_process_kept] flag_kept_emit)

lemma reap_closed_kept: "reap_closed rv wt i st = Inr st' \<Longrightarrow> flag_kept st st'"
  by (auto simp: reap_closed_def Let_def split: if_splits
        intro: flag_kept_trans [OF flag_kept_emit remove_process_kept])

lemma on_open_kept:
  "(if c then on_open prm env w st else Inr st) = Inr st' \<Longrightarrow> flag_kept st st'"
  by (auto simp: on_open_def split: if_splits sum.splits
        intro!: flag_keptI [where tr = "[Query_processed w False]"])

lemma on_close_kept:
  assumes "(if c then on_close prm env w st else Inr st) = Inr st'"
  shows "flag_kept st st'"
proof (cases "c \<and> \<not> is_watch_already_spawned w (PT st) \<and> \<not> pending_processing st")
  case False
  with assms have "st' = st" by (auto simp: on_close_def split: if_splits)
  then show ?thesis by simp
next
  case True
  let ?s1 = "emit [Query_processed w True] st"
  have k: "flag_kept st ?s1" by (rule flag_kept_emit) simp
  from assms True have "flag_kept ?s1 st'"
    by (auto simp: on_close_def Let_def split: if_splits sum.splits dest: spawn_kept)
  with k show ?thesis by (rule flag_kept_trans)
qed

lemma on_ignored_kept:
  assumes "(if c then on_ignored w sl else Inr sl) = Inr sl'"
  shows "flag_kept (fst sl) (fst sl')"
  using on_ignored_table [OF assms] by (intro flag_keptI [where tr = "[]"]) simp_all

lemma on_q_overflow_kept:
  assumes "(if c then on_q_overflow fd w sl else Inr sl) = Inr sl'"
  shows "flag_kept (fst sl) (fst sl')"
proof (cases c)
  case False
  with assms show ?thesis by simp
next
  case True
  obtain st lc where sl: "sl = (st, lc)" by (cases sl)
  from assms True
  have "fst sl' = flag_destroyed w (emit [Inotify_rm_watch fd (inotify_wd (watch_config st ! w))] st)"
    by (auto simp: sl on_q_overflow_def split: if_splits)
  then show ?thesis
    unfolding sl
    by (intro flag_keptI [where tr = "[Inotify_rm_watch fd (inotify_wd (watch_config st ! w))]"])
       simp_all
qed

lemma handle_event_kept:
  assumes "handle_event prm fd e (st, lc) = Inr (st', lc')"
  shows "flag_kept st st'"
proof -
  obtain event env where e: "e = (event, env)" by (cases e)
  let ?w = "fst (find_watch_idx st (wd event))"
  from assms [unfolded e] obtain st1 st2 sl3 sl4 where
    s1: "(if has (mask_ev event) IN_OPEN then on_open prm env ?w st else Inr st) = Inr st1" and
    s2: "(if has (mask_ev event) IN_CLOSE then on_close prm env ?w st1 else Inr st1) = Inr st2" and
    s3: "(if has (mask_ev event) IN_UNMOUNT then on_unmount ?w (st2, lc) else Inr (st2, lc))
         = Inr sl3" and
    s4: "(if has (mask_ev event) IN_IGNORED then on_ignored ?w sl3 else Inr sl3) = Inr sl4" and
    s5: "(if has (mask_ev event) IN_Q_OVERFLOW then on_q_overflow fd ?w sl4 else Inr sl4)
         = Inr (st', lc')"
    by (rule handle_event_steps)
  from on_unmount_table [OF s3] have "fst sl3 = st2" by simp
  with on_ignored_kept [OF s4] have "flag_kept st2 (fst sl4)" by simp
  moreover from on_q_overflow_kept [OF s5] have "flag_kept (fst sl4) st'" by simp
  ultimately show ?thesis
    using on_open_kept [OF s1] on_close_kept [OF s2] by (blast intro: flag_kept_trans)
qed

lemma handle_batch_kept:
  assumes "for_each (handle_event prm fd) evs sl = Inr sl'"
  shows "flag_kept (fst sl) (fst sl')"
  using assms
proof (rule for_each_preserves [where P = "\<lambda>s. flag_kept (fst sl) (fst s)"])
  fix x s s'
  assume p: "flag_kept (fst sl) (fst s)" and h: "handle_event prm fd x s = Inr s'"
  from h have "handle_event prm fd x (fst s, snd s) = Inr (fst s', snd s')" by simp
  from p handle_event_kept [OF this] show "flag_kept (fst sl) (fst s')"
    by (rule flag_kept_trans)
qed simp

lemma remove_other_watch_kept: "flag_kept st (remove_other_watch fd u st i)"
proof (cases "\<not> wd_was_destroyed (watch_config st ! i) \<and> \<not> u")
  case True
  then have "remove_other_watch fd u st i
             = emit [Inotify_rm_watch fd (inotify_wd (watch_config st ! i))] st"
    by (simp add: remove_other_watch_def)
  then show ?thesis by (simp add: flag_kept_emit)
next
  case False
  show ?thesis
    by (rule flag_keptI [where tr = "[]"]) (use False in \<open>auto simp: remove_other_watch_def\<close>)
qed

lemma remove_other_watches_kept: "flag_kept st (remove_other_watches fd u st)"
proof -
  have "flag_kept st (foldl (remove_other_watch fd u) st is)" for "is"
  proof (induction "is" arbitrary: st)
    case Nil
    show ?case by simp
  next
    case (Cons i "is")
    from remove_other_watch_kept [of st fd u i] Cons [of "remove_other_watch fd u st i"]
    show ?case by (simp add: flag_kept_trans)
  qed
  then show ?thesis by (simp add: remove_other_watches_def)
qed

lemma handle_events_loop_kept:
  assumes "handle_events_loop prm fd rs sl = Inr sl'"
  shows "flag_kept (fst sl) (fst sl')"
  using assms
proof (induction prm fd rs sl rule: handle_events_loop.induct)
  case (4 prm fd evs rest sl)
  show ?case
  proof (cases "evs = []")
    case True
    with 4 show ?thesis by simp
  next
    case False
    with "4.prems" obtain st lc where b: "for_each (handle_event prm fd) evs sl = Inr (st, lc)"
      by (auto split: sum.splits)
    from handle_batch_kept [OF b] have k: "flag_kept (fst sl) st" by simp
    show ?thesis
    proof (cases "destroyed_wd lc")
      case True
      with "4.prems" False b have "sl' = (remove_other_watches fd (was_unmounted lc) st, lc)"
        by simp
      with k remove_other_watches_kept [of st fd "was_unmounted lc"] show ?thesis
        by (simp add: flag_kept_trans)
    next
      case nd: False
      with "4.prems" False b have "handle_events_loop prm fd rest (st, lc) = Inr sl'" by simp
      from "4.IH" [OF False b _ nd this] k show ?thesis by (auto intro: flag_kept_trans)
    qed
  qed
qed simp_all

lemma handle_events_kept:
  assumes "handle_events prm fd rs st = Inr (st', d)"
  shows "flag_kept st st'"
  using assms
    handle_events_loop_kept [of prm fd rs "(st, \<lparr>destroyed_wd = False, was_unmounted = False\<rparr>)"]
  by (auto simp: handle_events_def split: sum.splits prod.splits)

lemma main_iteration_kept:
  assumes "main_iteration prm fd wk st = Inr (st', stop)"
  shows "flag_kept st st'"
proof (cases "poll_num wk > 0")
  case False
  with assms show ?thesis by (auto simp: main_iteration_def split: if_splits)
next
  case True
  let ?rv = "poll_revents wk (PT st)"
  from assms True obtain s1 where
    s1: "for_each (reap_closed ?rv (waited wk)) [1..<WATCH_MAX prm] st = Inr s1" and
    k: "(if ?rv 0 AND POLLIN \<noteq> 0
         then then_do (reap_zombie_processes prm (nohang wk) s1)
                (\<lambda>st2. handle_events prm fd (reads wk) st2)
         else Inr (s1, False)) = Inr (st', stop)"
    by (auto simp: main_iteration_def Let_def then_do_Inr_iff split: if_splits)
  from s1 have p1: "flag_kept st s1"
    by (rule for_each_kept) (rule reap_closed_kept)
  show ?thesis
  proof (cases "?rv 0 AND POLLIN \<noteq> 0")
    case False
    with k p1 show ?thesis by simp
  next
    case rd: True
    with k obtain s2 where s2: "reap_zombie_processes prm (nohang wk) s1 = Inr s2"
      and h: "handle_events prm fd (reads wk) s2 = Inr (st', stop)"
      by (auto simp: then_do_Inr_iff)
    from s2 have "flag_kept s1 s2"
      unfolding reap_zombie_processes_def by (rule for_each_kept) (rule reap_zombie_kept)
    with p1 handle_events_kept [OF h] show ?thesis by (blast intro: flag_kept_trans)
  qed
qed

lemma listen_kept:
  assumes "listen prm fd wks st = Inr (st', ended)"
  shows "flag_kept st st'"
  using assms
proof (induction wks arbitrary: st)
  case Nil
  then show ?case by simp
next
  case (Cons wk wks)
  from Cons.prems obtain s1 stop where m: "main_iteration prm fd wk st = Inr (s1, stop)"
    by (auto split: sum.splits)
  note p = main_iteration_kept [OF m]
  show ?case
  proof (cases stop)
    case True
    with Cons.prems m have "st' = emit [Close fd] s1" by simp
    with p flag_kept_emit [of "[Close fd]" s1] show ?thesis by (simp add: flag_kept_trans)
  next
    case False
    with Cons.prems m have "listen prm fd wks s1 = Inr (st', ended)" by simp
    from p Cons.IH [OF this] show ?thesis by (rule flag_kept_trans)
  qed
qed

lemma add_watch_kept: "add_watch g fd i st = Inr st' \<Longrightarrow> flag_kept st st'"
  by (auto simp: add_watch_def Let_def split: if_splits
        intro!: flag_keptI [where tr = "[Inotify_add_watch fd i x]" for x])

lemma setup_generation_kept:
  assumes "setup_generation prm g st = Inr st'"
  shows "flag_kept st st'"
proof -
  from assms obtain s1 where
    s1: "for_each (add_watch g (init_fd g)) [0..<watch_count st]
           (emit [Inotify_init1 (init_fd g)] st) = Inr s1" and
    st': "st' = s1\<lparr>PT := (PT s1)\<lparr>spawn_fds := (spawn_fds (PT s1))[0 := init_fd g]\<rparr>\<rparr>"
    by (auto simp: setup_generation_def Let_def then_do_Inr_iff split: if_splits)
  from s1 have "flag_kept (emit [Inotify_init1 (init_fd g)] st) s1"
    by (rule for_each_kept) (rule add_watch_kept)
  with flag_kept_emit [of "[Inotify_init1 (init_fd g)]" st] have "flag_kept st s1"
    by (simp add: flag_kept_trans)
  then show ?thesis unfolding st' by (rule flag_kept_trans) simp
qed

lemma run_generation_kept:
  assumes "run_generation prm g st = Inr (st', ended)"
  shows "flag_kept st st'"
proof -
  from assms obtain s1 where s: "setup_generation prm g st = Inr s1"
    and l: "listen prm (init_fd g) (wakeups g) s1 = Inr (st', ended)"
    by (auto simp: run_generation_def then_do_Inr_iff)
  from setup_generation_kept [OF s] listen_kept [OF l] show ?thesis by (rule flag_kept_trans)
qed

lemma main_loop_kept:
  assumes "main_loop prm gs st = Inr st'"
  shows "flag_kept st st'"
  using assms
proof (induction gs arbitrary: st)
  case Nil
  then show ?case by simp
next
  case (Cons g gs)
  from Cons.prems obtain s1 ended where r: "run_generation prm g st = Inr (s1, ended)"
    by (auto split: sum.splits)
  note p = run_generation_kept [OF r]
  show ?case
  proof (cases ended)
    case True
    with Cons.prems r have "main_loop prm gs s1 = Inr st'" by simp
    from p Cons.IH [OF this] show ?thesis by (rule flag_kept_trans)
  next
    case False
    with Cons.prems r have "st' = s1" by simp
    with p show ?thesis by simp
  qed
qed

subsection \<open>The concrete runs, evaluated\<close>

lemma masks [simp]:
  "has IN_OPEN IN_OPEN" "\<not> has IN_OPEN IN_CLOSE" "\<not> has IN_OPEN IN_UNMOUNT" "\<not> has IN_OPEN IN_IGNORED" "\<not> has IN_OPEN IN_Q_OVERFLOW"
  "\<not> has IN_CLOSE IN_OPEN" "has IN_CLOSE IN_CLOSE" "\<not> has IN_CLOSE IN_UNMOUNT" "\<not> has IN_CLOSE IN_IGNORED" "\<not> has IN_CLOSE IN_Q_OVERFLOW"
  "\<not> has IN_IGNORED IN_OPEN" "\<not> has IN_IGNORED IN_CLOSE" "\<not> has IN_IGNORED IN_UNMOUNT" "has IN_IGNORED IN_IGNORED" "\<not> has IN_IGNORED IN_Q_OVERFLOW"
  "\<not> has IN_Q_OVERFLOW IN_OPEN" "\<not> has IN_Q_OVERFLOW IN_CLOSE" "\<not> has IN_Q_OVERFLOW IN_UNMOUNT" "\<not> has IN_Q_OVERFLOW IN_IGNORED" "has IN_Q_OVERFLOW IN_Q_OVERFLOW"
  by (simp_all add: has_def IN_OPEN_def IN_CLOSE_def IN_UNMOUNT_def IN_IGNORED_def IN_Q_OVERFLOW_def)

lemma ev_simps [simp]: "wd (ev w m) = w" "mask_ev (ev w m) = m"
  by (simp_all add: ev_def)

lemma env_of_simps [simp]: "open_world (env_of a b) = a" "close_world (env_of a b) = b" "spawn_answers (env_of a b) = answers0"
  by (simp_all add: env_of_def)

lemma st_of_simps [simp]:
  "PT (st_of pt pend tr) = pt" "watch_config (st_of pt pend tr) = wcs0"
  "watch_count (st_of pt pend tr) = 1" "pending_processing (st_of pt pend tr) = pend"
  "trace (st_of pt pend tr) = tr"
  "emit as (st_of pt pend tr) = st_of pt pend (tr @ as)"
  "(st_of pt pend tr)\<lparr>pending_processing := b\<rparr> = st_of pt b tr"
  "(st_of pt pend tr)\<lparr>PT := pt'\<rparr> = st_of pt' pend tr"
  by (simp_all add: st_of_def emit_def)

lemma pt_simps [simp]:
  "spawn_watchids (pt_idle lfd) = [- 1, - 1, - 1]" "spawn_fds (pt_idle lfd) = [lfd, - 1, - 1]"
  "spawn_pids (pt_idle lfd) = [- 1, - 1, - 1]"
  "spawn_watchids (pt_running lfd) = [- 1, 0, - 1]" "spawn_fds (pt_running lfd) = [lfd, 7, - 1]"
  "spawn_pids (pt_running lfd) = [- 1, 1234, - 1]"
  by (simp_all add: pt_idle_def pt_running_def)

lemma find_icon: "find_watch_idx (st_of pt pend tr) 1 = (0, True)"
  by (simp add: find_watch_idx_def find_watch_idx_from.simps)

lemma find_none: "find_watch_idx (st_of pt pend tr) (- 1) = (1, False)"
  by (simp add: find_watch_idx_def find_watch_idx_from.simps)

lemma spawned_idle [simp]: "\<not> is_watch_already_spawned w (pt_idle lfd)"
  by (simp add: is_watch_already_spawned_def)

lemma spawned_running [simp]: "is_watch_already_spawned 0 (pt_running lfd)"
  by (simp add: is_watch_already_spawned_def)

lemma open_two:
  "handle_event prm0 fd e_open_two (st_of (pt_idle lfd) pend tr, lc)
   = Inr (st_of (pt_idle lfd) True (tr @ [Query_processed 0 False]), lc)"
  by (simp add: handle_event_def e_open_two_def find_icon on_open_def itp_icon_two)

lemma close_pending:
  "handle_event prm0 fd e_close_ready (st_of (pt_idle lfd) True tr, lc)
   = Inr (st_of (pt_idle lfd) True tr, lc)"
  by (simp add: handle_event_def e_close_ready_def find_icon on_close_def)

lemma add_to_idle: "add_process_to_table (Suc 0) 1234 7 0 (pt_idle lfd) = pt_running lfd"
  by (simp add: add_process_to_table_def pt_idle_def pt_running_def)

lemma close_fresh:
  "lfd \<noteq> - 1 \<Longrightarrow> handle_event prm0 fd e_close_ready (st_of (pt_idle lfd) False tr, lc)
   = Inr (st_of (pt_running lfd) False (tr @ spawn_trace), lc)"
  by (simp add: handle_event_def e_close_ready_def find_icon on_close_def itp_icon_ready
        spawn_def answers0_def get_next_available_pt_entry_def add_to_idle spawn_trace_def)

lemma close_running:
  "handle_event prm0 fd e_close_ready (st_of (pt_running lfd) pend tr, lc)
   = Inr (st_of (pt_running lfd) pend tr, lc)"
  by (simp add: handle_event_def e_close_ready_def find_icon on_close_def)

lemma ignored_icon:
  "handle_event prm0 fd e_ignored (st_of pt pend tr, lc)
   = Inr (flag_destroyed 0 (st_of pt pend tr), lc\<lparr>destroyed_wd := True\<rparr>)"
  by (simp add: handle_event_def e_ignored_def find_icon on_ignored_def)

lemma remove_other_flagged:
  "remove_other_watches fd u (flag_destroyed 0 (st_of pt pend tr)) = st_of pt pend tr"
  by (simp add: remove_other_watches_def remove_other_watch_def flag_destroyed_def st_of_def
        wcs0_def wc_icon_def)


lemma wakeup_events_simps [simp]:
  "poll_num (wakeup_events rs) = 1" "reads (wakeup_events rs) = rs"
  "revents (wakeup_events rs) i = (if i = 0 then POLLIN else 0)"
  "nohang (wakeup_events rs) i = 0" "waited (wakeup_events rs) i = - 1"
  by (simp_all add: wakeup_events_def)

lemma gen_simps [simp]:
  "init_fd gen_a = 5" "init_fd gen_b = 6"
  "mtab gen_a = Some [''/mnt/onboard'']" "mtab gen_b = Some [''/mnt/onboard'']"
  "add_watch_res gen_a i = 1" "add_watch_res gen_b i = 1"
  "wakeups gen_a = [wakeup_events [Read_ok [e_open_two]], wakeup_events [Read_ok [e_ignored]]]"
  "wakeups gen_b = [wakeup_events [Read_ok [e_close_ready]]]"
  by (simp_all add: gen_a_def gen_b_def)

lemma upt_1_3 [simp]: "[Suc 0..<3] = [Suc 0, 2]"
  by (simp add: upt_rec)

lemma poll_bits [simp]: "POLLIN \<noteq> 0" "(0::16 word) AND (POLLIN OR POLLHUP) = 0"
  by (simp_all add: POLLIN_def POLLHUP_def)

lemma initial_small: "initial_state prm0 dc0 wcs0 (Suc 0) = st_of (pt_idle (- 1)) False []"
  by (simp add: initial_state_def init_process_table_def st_of_def pt_idle_def numeral_3_eq_3)

lemma wcs0_rewatch: "wcs0[0 := (wcs0 ! 0)\<lparr>inotify_wd := 1\<rparr>] = wcs0"
  by (simp add: wcs0_def wc_icon_def)

lemma setup_small:
  "g \<in> {gen_a, gen_b} \<Longrightarrow> setup_generation prm0 g (st_of (pt_idle lfd) pend tr)
   = Inr (st_of (pt_idle (init_fd g)) pend (tr @ [Inotify_init1 (init_fd g), Inotify_add_watch (init_fd g) 0 1]))"
  by (auto simp: setup_generation_def is_target_mounted_def add_watch_def st_of_def emit_def
        wcs0_rewatch [simplified] pt_idle_def)

lemma wakeup_idle:
  "0 \<le> lfd \<Longrightarrow> main_iteration prm0 fd (wakeup_events rs) (st_of (pt_idle lfd) pend tr)
   = handle_events prm0 fd rs (st_of (pt_idle lfd) pend tr)"
  by (simp add: main_iteration_def poll_revents_def reap_closed_def reap_zombie_processes_def
        reap_zombie_def)

lemma run_a:
  "run_generation prm0 gen_a (st_of (pt_idle lfd) pend tr)
   = Inr (st_of (pt_idle 5) True (tr @ [Inotify_init1 5, Inotify_add_watch 5 0 1,
            Query_processed 0 False, Close 5]), True)"
  by (simp add: run_generation_def setup_small wakeup_idle handle_events_def open_two
        ignored_icon remove_other_flagged)

lemma run_b_pending:
  "run_generation prm0 gen_b (st_of (pt_idle lfd) True tr)
   = Inr (st_of (pt_idle 6) True (tr @ [Inotify_init1 6, Inotify_add_watch 6 0 1]), False)"
  by (simp add: run_generation_def setup_small wakeup_idle handle_events_def close_pending)

lemma run_b_fresh:
  "run_generation prm0 gen_b (st_of (pt_idle lfd) False tr)
   = Inr (st_of (pt_running 6) False (tr @ [Inotify_init1 6, Inotify_add_watch 6 0 1] @ spawn_trace), False)"
  by (simp add: run_generation_def setup_small wakeup_idle handle_events_def close_fresh)

lemma main_ab: "main prm0 dc0 wcs0 1 [gen_a, gen_b]
  = Inr (st_of (pt_idle 6) True [Inotify_init1 5, Inotify_add_watch 5 0 1,
            Query_processed 0 False, Close 5, Inotify_init1 6, Inotify_add_watch 6 0 1])"
  by (simp add: main_def initial_small run_a run_b_pending)

lemma main_b: "main prm0 dc0 wcs0 1 [gen_b]
  = Inr (st_of (pt_running 6) False ([Inotify_init1 6, Inotify_add_watch 6 0 1] @ spawn_trace))"
  by (simp add: main_def initial_small run_b_fresh)

lemma gen_cd_simps [simp]:
  "init_fd gen_c = 5" "init_fd gen_d = 6"
  "mtab gen_c = Some [''/mnt/onboard'']" "mtab gen_d = Some [''/mnt/onboard'']"
  "add_watch_res gen_c i = int i + 1" "add_watch_res gen_d i = int i + 1"
  "wakeups gen_c = [wakeup_events [Read_ok [e_ignored]]]" "wakeups gen_d = []"
  by (simp_all add: gen_c_def gen_d_def)

subsection \<open>Readiness\<close>

lemma thumbnails_num_3:
  "thumbnails_num prm w i = 3 \<longleftrightarrow>
     access_ok w (thumbnail_path prm i ''N3_FULL'')
     \<and> access_ok w (thumbnail_path prm i ''N3_LIBRARY_FULL'')
     \<and> access_ok w (thumbnail_path prm i ''N3_LIBRARY_GRID'')"
  by (simp add: thumbnails_num_def)

text \<open>The code's lookup and paths are those of the specification, when nothing is cut.\<close>

lemma unat_of_char: "unat (of_char c :: u8) = of_char c"
proof -
  have "(of_char c :: u8) = of_nat (of_char c)" by (simp add: of_nat_of_char)
  then have "unat (of_char c :: u8) = take_bit 8 (of_char c :: nat)"
    by (simp add: unsigned_of_nat)
  also have "\<dots> = of_char c"
    by (rule take_bit_nat_eq_self) (simp add: nat_of_char_less_256)
  finally show ?thesis .
qed

lemma unat_qhash_string:
  "unat (qhash (map of_char s)) = spec_hash (map of_char s)"
proof -
  have m: "map unat (map of_char s :: u8 list) = map of_char s"
    by (simp add: unat_of_char)
  have "unat (qhash (map of_char s))
        = foldl spec_hash_step (unat (0::u32)) (map unat (map of_char s :: u8 list))"
    unfolding qhash_def by (rule unat_qhash_loop)
  then show ?thesis unfolding m spec_hash_def by simp
qed

lemma dec_byte: "n < 256 \<Longrightarrow> dec n = spec_decimal n"
proof -
  assume "n < 256"
  have d1: "dec k = [spec_digit k]" if "k < 10" for k
    using that by (simp add: dec.simps [of k] digit_char_def spec_digit_def)
  have d2: "dec k = [spec_digit (k div 10), spec_digit (k mod 10)]" if "10 \<le> k" "k < 100" for k
  proof -
    from that have "k div 10 < 10" by simp
    from d1 [OF this] that show ?thesis
      by (simp add: dec.simps [of k] digit_char_def spec_digit_def)
  qed
  have d3: "dec k = [spec_digit (k div 100), spec_digit (k div 10 mod 10), spec_digit (k mod 10)]"
    if "100 \<le> k" "k < 1000" for k
  proof -
    from that have "10 \<le> k div 10" "k div 10 < 100" by simp_all
    moreover have "k div 10 div 10 = k div 100" using div_mult2_eq [of k 10 10] by simp
    ultimately show ?thesis using d2 [of "k div 10"] that
      by (simp add: dec.simps [of k] digit_char_def spec_digit_def)
  qed
  from \<open>n < 256\<close> d1 [of n] d2 [of n] d3 [of n] show ?thesis
    by (simp add: spec_decimal_def)
qed

lemma book_path_fits:
  "length (filename wc) < PATH_MAX \<Longrightarrow> book_path_of wc = ''file://'' @ filename wc"
  by (simp add: book_path_of_def snprintf_def)

lemma select_rows_spec:
  "length (filename wc) < PATH_MAX \<Longrightarrow>
   select_rows w (book_path_of wc) = filter (spec_record wc) (content w)"
  by (simp only: select_rows_def book_path_fits spec_record_def [abs_def])

text \<open>
  As long as nothing is cut to \<^verbatim>\<open>PATH_MAX\<close> and the identifier holds no NUL, the
  path checked is the layout \<^verbatim>\<open>.kobo-images/<dir1>/<dir2>/<ImageID> - <suffix>.parsed\<close>
  under the mountpoint.
\<close>

lemma thumbnail_path_layout:
  assumes "CHR 0x00 \<notin> set image_id"
    and "dir = KFMON_TARGET_MOUNTPOINT prm @ ''/.kobo-images/''
                 @ dec (unat (hash_dir1 (qhash (map of_char image_id)))) @ ''/''
                 @ dec (unat (hash_dir2 (qhash (map of_char image_id))))"
    and "length (dir @ ''/'' @ image_id @ '' - '' @ suffix @ ''.parsed'') < PATH_MAX"
  shows "thumbnail_path prm image_id suffix
         = dir @ ''/'' @ image_id @ '' - '' @ suffix @ ''.parsed''"
proof -
  from assms(1) have c: "c_str image_id = image_id"
    by (auto simp: c_str_def takeWhile_eq_all_conv)
  from assms(3) have "length dir \<le> PATH_MAX - 1" by simp
  then have i: "images_path prm image_id = dir"
    by (simp add: images_path_def Let_def snprintf_def assms(2))
  from assms(3) have "length (dir @ ''/'' @ image_id @ '' - '' @ suffix @ ''.parsed'') \<le> PATH_MAX - 1"
    by simp
  then show ?thesis
    unfolding thumbnail_path_def i c snprintf_def by (rule take_all)
qed

lemma thumbnail_path_spec:
  assumes "CHR 0x00 \<notin> set image_id"
    and "length (spec_artifact prm image_id suffix) < PATH_MAX"
  shows "thumbnail_path prm image_id suffix = spec_artifact prm image_id suffix"
proof -
  let ?h = "qhash (map of_char image_id)"
  have b1: "unat (hash_dir1 ?h) < 256" and b2: "unat (hash_dir2 ?h) < 256"
    by (simp_all add: unat_hash_dir1 unat_hash_dir2)
  have s: "spec_artifact prm image_id suffix
           = (KFMON_TARGET_MOUNTPOINT prm @ ''/.kobo-images/''
                 @ dec (unat (hash_dir1 ?h)) @ ''/'' @ dec (unat (hash_dir2 ?h)))
              @ ''/'' @ image_id @ '' - '' @ suffix @ ''.parsed''"
    unfolding dec_byte [OF b1] dec_byte [OF b2]
    by (simp add: spec_artifact_def unat_hash_dir1 unat_hash_dir2 unat_qhash_string)
  show ?thesis
    unfolding s by (rule thumbnail_path_layout [OF assms(1) refl]) (use assms(2) s in simp)
qed

lemma spec_artifact_length:
  "length (spec_artifact prm image_id ''N3_LIBRARY_GRID'')
   = length (spec_artifact prm image_id ''N3_LIBRARY_FULL'')"
  "length (spec_artifact prm image_id ''N3_FULL'')
   < length (spec_artifact prm image_id ''N3_LIBRARY_FULL'')"
  by (simp_all add: spec_artifact_def)

lemma thumbnails_num_spec:
  assumes "CHR 0x00 \<notin> set image_id"
    and "length (spec_artifact prm image_id ''N3_LIBRARY_FULL'') < PATH_MAX"
  shows "thumbnails_num prm w image_id = 3 \<longleftrightarrow> spec_artifacts prm w image_id"
proof -
  from assms(2) spec_artifact_length [of prm image_id]
  have "length (spec_artifact prm image_id ''N3_FULL'') < PATH_MAX"
    "length (spec_artifact prm image_id ''N3_LIBRARY_GRID'') < PATH_MAX" by simp_all
  with assms show ?thesis
    by (simp add: thumbnails_num_3 thumbnail_path_spec access_ok_def spec_artifacts_def)
qed


lemma spec_ready_filter:
  "spec_ready prm wc w
   \<longleftrightarrow> (\<exists>row \<in> set (filter (spec_record wc) (content w)). spec_artifacts prm w (ImageID row))"
  by (auto simp: spec_ready_def)

lemma image_row_ready:
  assumes "case sqlite3_step w 1 (map ImageID (select_rows w (book_path_of wc))) of
             SQLITE_ROW image_id \<Rightarrow> thumbnails_num prm w image_id = 3 | _ \<Rightarrow> False"
    and "length (filename wc) < PATH_MAX"
    and "\<forall>row \<in> set (content w). spec_record wc row \<longrightarrow>
           CHR 0x00 \<notin> set (ImageID row)
           \<and> length (spec_artifact prm (ImageID row) ''N3_LIBRARY_FULL'') < PATH_MAX"
  shows "spec_ready prm wc w"
proof -
  let ?F = "filter (spec_record wc) (content w)"
  from assms(1) obtain r rest where f: "?F = r # rest"
    and n: "thumbnails_num prm w (ImageID r) = 3"
    unfolding select_rows_spec [OF assms(2)]
    by (auto simp: sqlite3_step_def split: if_splits list.splits)
  from f have "r \<in> set ?F" by simp
  then have r: "r \<in> set (content w)" "spec_record wc r" by simp_all
  with assms(3) have "CHR 0x00 \<notin> set (ImageID r)"
    "length (spec_artifact prm (ImageID r) ''N3_LIBRARY_FULL'') < PATH_MAX" by blast+
  from thumbnails_num_spec [OF this] n have "spec_artifacts prm w (ImageID r)" by simp
  with r show ?thesis unfolding spec_ready_def by blast
qed

lemma image_row_ready_iff:
  assumes "\<not> step_busy w 1" and "length (filename wc) < PATH_MAX"
    and "\<forall>row \<in> set (content w). spec_record wc row \<longrightarrow>
           CHR 0x00 \<notin> set (ImageID row)
           \<and> length (spec_artifact prm (ImageID row) ''N3_LIBRARY_FULL'') < PATH_MAX"
    and "length (filter (spec_record wc) (content w)) \<le> 1"
  shows "(case sqlite3_step w 1 (map ImageID (select_rows w (book_path_of wc))) of
            SQLITE_ROW image_id \<Rightarrow> thumbnails_num prm w image_id = 3 | _ \<Rightarrow> False)
         = spec_ready prm wc w"
proof (cases "filter (spec_record wc) (content w)")
  case Nil
  then show ?thesis
    unfolding select_rows_spec [OF assms(2)] spec_ready_filter
    using assms(1) by (simp add: sqlite3_step_def)
next
  case (Cons r rest)
  with assms(4) have f: "filter (spec_record wc) (content w) = [r]" by simp
  then have "r \<in> set (filter (spec_record wc) (content w))" by simp
  then have "r \<in> set (content w)" "spec_record wc r" by simp_all
  with assms(3) have "CHR 0x00 \<notin> set (ImageID r)"
    "length (spec_artifact prm (ImageID r) ''N3_LIBRARY_FULL'') < PATH_MAX" by blast+
  from thumbnails_num_spec [OF this]
  show ?thesis
    unfolding select_rows_spec [OF assms(2)] spec_ready_filter f
    using assms(1) by (simp add: sqlite3_step_def)
qed

lemma itp_update_only_if:
  "itp_update prm wc w wait is_p = Inr r \<Longrightarrow> is_processed r \<Longrightarrow> is_p"
  by (auto simp: itp_update_def itp_finish_def Let_def split: if_splits)

lemma itp_thumbnails_only_if:
  assumes "itp_thumbnails prm wc w wait ex = Inr r" and "is_processed r"
    and "CALL_SQLITE_fails prm False \<noteq> Some True"
    and "length (filename wc) < PATH_MAX"
    and "\<forall>row \<in> set (content w). spec_record wc row \<longrightarrow>
           CHR 0x00 \<notin> set (ImageID row)
           \<and> length (spec_artifact prm (ImageID row) ''N3_LIBRARY_FULL'') < PATH_MAX"
  shows "spec_ready prm wc w"
proof -
  from assms(1-3) have "ex \<and> api_ok w 3 \<and> api_ok w 4"
    by (auto simp: itp_thumbnails_def Let_def sqlite_failed_def
          split: if_splits option.splits dest: itp_update_only_if)
  with assms(1,2) have "case sqlite3_step w 1 (map ImageID (select_rows w (book_path_of wc))) of
      SQLITE_ROW image_id \<Rightarrow> thumbnails_num prm w image_id = 3 | _ \<Rightarrow> False"
    by (auto simp: itp_thumbnails_def Let_def dest: itp_update_only_if)
  then show ?thesis using assms(4,5) by (rule image_row_ready)
qed

lemma is_target_processed_only_if:
  assumes "is_target_processed prm wcs w i wait = Inr r" and "is_processed r"
    and "\<not> (DEBUG prm \<and> skip_db_checks (wcs ! i))"
    and "CALL_SQLITE_fails prm False \<noteq> Some True"
    and "length (filename (wcs ! i)) < PATH_MAX"
    and "\<forall>row \<in> set (content w). spec_record (wcs ! i) row \<longrightarrow>
           CHR 0x00 \<notin> set (ImageID row)
           \<and> length (spec_artifact prm (ImageID row) ''N3_LIBRARY_FULL'') < PATH_MAX"
  shows "spec_ready prm (wcs ! i) w"
proof -
  from assms(1-4) have "\<exists>ex. itp_thumbnails prm (wcs ! i) w wait ex = Inr r"
    by (auto simp: is_target_processed_def Let_def sqlite_failed_def
          split: if_splits option.splits)
  then obtain ex where "itp_thumbnails prm (wcs ! i) w wait ex = Inr r" ..
  then show ?thesis using assms(2,4,5,6) by (rule itp_thumbnails_only_if)
qed

lemma itp_update_answered:
  assumes "\<And>n. api_ok w n" and "\<And>n. \<not> step_busy w n"
  shows "\<exists>r. itp_update prm wc w wait is_p = Inr r \<and> is_processed r = is_p"
  using assms by (simp add: itp_update_def itp_finish_def Let_def)

lemma is_target_processed_answered:
  assumes "i < length wcs" and "\<not> (DEBUG prm \<and> skip_db_checks (wcs ! i))"
    and "\<And>n. api_ok w n" and "\<And>n. \<not> step_busy w n"
    and "length (filename (wcs ! i)) < PATH_MAX"
    and "\<forall>row \<in> set (content w). spec_record (wcs ! i) row \<longrightarrow>
           CHR 0x00 \<notin> set (ImageID row)
           \<and> length (spec_artifact prm (ImageID row) ''N3_LIBRARY_FULL'') < PATH_MAX"
    and "length (filter (spec_record (wcs ! i)) (content w)) \<le> 1"
  shows "\<exists>r. is_target_processed prm wcs w i wait = Inr r
             \<and> is_processed r = spec_ready prm (wcs ! i) w"
proof -
  let ?wc = "wcs ! i"
  let ?ex = "select_rows w (book_path_of ?wc) \<noteq> []"
  have st0: "(case sqlite3_step w 0 [if ?ex then 1 else 0 :: int] of
                SQLITE_ROW v \<Rightarrow> v = 1 | _ \<Rightarrow> False) = ?ex"
    by (simp add: sqlite3_step_def assms(4))
  have img: "(case sqlite3_step w 1 (map ImageID (select_rows w (book_path_of ?wc))) of
      SQLITE_ROW image_id \<Rightarrow> thumbnails_num prm w image_id = 3 | _ \<Rightarrow> False)
      = spec_ready prm ?wc w"
    using assms(4) [of 1] assms(5,6,7) by (rule image_row_ready_iff)
  have top: "is_target_processed prm wcs w i wait = itp_thumbnails prm ?wc w wait ?ex"
    using assms(1,2) by (auto simp: is_target_processed_def Let_def assms(3) st0)
  have "itp_thumbnails prm ?wc w wait ?ex
        = itp_update prm ?wc w wait (spec_ready prm ?wc w)"
  proof (cases ?ex)
    case True
    then show ?thesis using img by (simp add: itp_thumbnails_def Let_def assms(3))
  next
    case False
    then have "\<not> spec_ready prm ?wc w"
      unfolding select_rows_spec [OF assms(5)] spec_ready_filter by simp
    with False show ?thesis by (simp add: itp_thumbnails_def Let_def)
  qed
  with top itp_update_answered [OF assms(3,4), of prm ?wc wait "spec_ready prm ?wc w"]
  show ?thesis by simp
qed

text \<open>
  Claim C3. \<^verbatim>\<open>is_target_processed\<close> returns true only if the content record of the
  trigger's path exists with the expected content type and all three artifacts
  (full-screen, home tile, grid thumbnail) are on disk; and when the database answers
  (every wrapped SQLite call succeeds, no step fails on a lock) and holds at most one
  record for the trigger, it returns exactly that, so with the record and two of the
  three artifacts it returns false, and once the third exists it returns true. Record
  and artifacts are those of the specification, stated over the rows of the relation
  and the files on disk. The strings fit the buffers of the code: the trigger's path
  and the artifact paths of its records are shorter than \<^verbatim>\<open>PATH_MAX\<close>, and no
  \<^verbatim>\<open>ImageID\<close> holds a NUL. The debug bypass (\<^verbatim>\<open>skip_db_checks\<close> in a
  \<^verbatim>\<open>DEBUG\<close> build) is off, and a failing \<^verbatim>\<open>CALL_SQLITE\<close> does not turn a false
  \<^verbatim>\<open>is_processed\<close> into true.
\<close>

theorem ready_needs_record_and_three_thumbnails:
  assumes "watch_idx < length wcs"
    and "\<not> (DEBUG prm \<and> skip_db_checks (wcs ! watch_idx))"
    and "length (filename (wcs ! watch_idx)) < PATH_MAX"
    and "\<forall>row \<in> set (content w). spec_record (wcs ! watch_idx) row \<longrightarrow>
           CHR 0x00 \<notin> set (ImageID row)
           \<and> length (spec_artifact prm (ImageID row) ''N3_LIBRARY_FULL'') < PATH_MAX"
  shows "(CALL_SQLITE_fails prm False \<noteq> Some True \<longrightarrow>
            (\<forall>r. is_target_processed prm wcs w watch_idx wait_for_db = Inr r \<and> is_processed r
                  \<longrightarrow> spec_ready prm (wcs ! watch_idx) w))
       \<and> ((\<forall>n. api_ok w n) \<and> (\<forall>n. \<not> step_busy w n)
          \<and> length (filter (spec_record (wcs ! watch_idx)) (content w)) \<le> 1 \<longrightarrow>
            (\<exists>r. is_target_processed prm wcs w watch_idx wait_for_db = Inr r
                  \<and> is_processed r = spec_ready prm (wcs ! watch_idx) w))"
proof (intro conjI impI allI)
  fix r
  assume "CALL_SQLITE_fails prm False \<noteq> Some True"
    and "is_target_processed prm wcs w watch_idx wait_for_db = Inr r \<and> is_processed r"
  then show "spec_ready prm (wcs ! watch_idx) w"
    using assms(2,3,4) is_target_processed_only_if [of prm wcs w watch_idx wait_for_db r]
    by simp
next
  assume a: "(\<forall>n. api_ok w n) \<and> (\<forall>n. \<not> step_busy w n)
          \<and> length (filter (spec_record (wcs ! watch_idx)) (content w)) \<le> 1"
  then have "\<And>n. api_ok w n" "\<And>n. \<not> step_busy w n"
    "length (filter (spec_record (wcs ! watch_idx)) (content w)) \<le> 1" by simp_all
  with assms show "\<exists>r. is_target_processed prm wcs w watch_idx wait_for_db = Inr r
                  \<and> is_processed r = spec_ready prm (wcs ! watch_idx) w"
    by (intro is_target_processed_answered)
qed

lemma spec_artifact_abc:
  "spec_artifact prm0 ''abc'' suffix
   = ''/mnt/onboard/.kobo-images/131/103/abc - '' @ suffix @ ''.parsed''"
proof -
  have "spec_hash (map of_char ''abc'') = unat (qhash (map of_char ''abc''))"
    by (simp only: unat_qhash_string)
  then have h: "spec_hash (map of_char ''abc'') = 26499"
    by (simp only: qhash_abc) simp
  show ?thesis
    unfolding spec_artifact_def h by (simp add: spec_decimal_def spec_digit_def)
qed

lemma spec_ready_two: "\<not> spec_ready prm0 wc_icon world_two"
  by (simp add: spec_ready_def world_two_def spec_artifacts_def spec_artifact_abc
        thumb_full_def thumb_grid_def)

lemma icon_fits:
  "CHR 0x00 \<notin> set (ImageID row_icon)"
  "length (spec_artifact prm0 (ImageID row_icon) ''N3_LIBRARY_FULL'') < PATH_MAX"
  "length (filename (wcs0 ! 0)) < PATH_MAX"
  by (simp_all add: spec_artifact_abc PATH_MAX_def)

theorem ready_needs_record_and_three_thumbnails_witness:
  "(0::nat) < length wcs0 \<and> \<not> (DEBUG prm0 \<and> skip_db_checks (wcs0 ! 0))
   \<and> length (filename (wcs0 ! 0)) < PATH_MAX
   \<and> content world_two = [row_icon] \<and> content world_ready = [row_icon]
   \<and> CHR 0x00 \<notin> set (ImageID row_icon)
   \<and> length (spec_artifact prm0 (ImageID row_icon) ''N3_LIBRARY_FULL'') < PATH_MAX
   \<and> \<not> spec_ready prm0 (wcs0 ! 0) world_two
   \<and> (\<exists>r. is_target_processed prm0 wcs0 world_two 0 True = Inr r \<and> \<not> is_processed r)
   \<and> is_target_processed prm0 wcs0 world_ready 0 True
       = Inr \<lparr>is_processed = True, db_after = [row_icon], sleeps = 0\<rparr>
   \<and> spec_ready prm0 (wcs0 ! 0) world_ready
   \<and> content world_other_type = [row_other_type] \<and> ImageID row_other_type = ImageID row_icon
   \<and> files world_other_type = files world_ready
   \<and> is_target_processed prm0 wcs0 world_other_type 0 True
       = Inr \<lparr>is_processed = False, db_after = [row_other_type], sleeps = 0\<rparr>
   \<and> \<not> spec_ready prm0 (wcs0 ! 0) world_other_type"
proof -
  have h1: "(0::nat) < length wcs0" and h2: "\<not> (DEBUG prm0 \<and> skip_db_checks (wcs0 ! 0))"
    by simp_all
  have c: "content world_two = [row_icon]" "content world_ready = [row_icon]"
    by (simp_all add: world_two_def world_ready_def)
  have h4: "\<forall>row \<in> set (content w). spec_record (wcs0 ! 0) row \<longrightarrow>
           CHR 0x00 \<notin> set (ImageID row)
           \<and> length (spec_artifact prm0 (ImageID row) ''N3_LIBRARY_FULL'') < PATH_MAX"
    if "content w = [row]" "ImageID row = ImageID row_icon" for w row
    using that icon_fits(1,2) by simp
  have a2: "(\<forall>n. api_ok world_two n) \<and> (\<forall>n. \<not> step_busy world_two n)
            \<and> length (filter (spec_record (wcs0 ! 0)) (content world_two)) \<le> 1"
    by (simp add: world_two_def)
  have m: "CALL_SQLITE_fails prm0 False \<noteq> Some True" by simp
  have two: "\<not> spec_ready prm0 (wcs0 ! 0) world_two" using spec_ready_two by simp
  note t2 = ready_needs_record_and_three_thumbnails
      [OF h1 h2 icon_fits(3) h4 [OF c(1) refl], of True]
  from t2 [THEN conjunct2, THEN mp, OF a2] two
  have t: "\<exists>r. is_target_processed prm0 wcs0 world_two 0 True = Inr r \<and> \<not> is_processed r"
    by simp
  have i: "is_target_processed prm0 wcs0 world_ready 0 True
       = Inr \<lparr>is_processed = True, db_after = [row_icon], sleeps = 0\<rparr>"
    by (rule itp_icon_ready)
  note t3 = ready_needs_record_and_three_thumbnails
      [OF h1 h2 icon_fits(3) h4 [OF c(2) refl], of True]
  from t3 [THEN conjunct1, THEN mp, OF m, rule_format,
      of "\<lparr>is_processed = True, db_after = [row_icon], sleeps = 0\<rparr>"] i
  have r: "spec_ready prm0 (wcs0 ! 0) world_ready" by simp
  have o: "content world_other_type = [row_other_type]" "ImageID row_other_type = ImageID row_icon"
    "files world_other_type = files world_ready"
    by (simp_all add: world_other_type_def world_ready_def row_other_type_def)
  have a4: "(\<forall>n. api_ok world_other_type n) \<and> (\<forall>n. \<not> step_busy world_other_type n)
            \<and> length (filter (spec_record (wcs0 ! 0)) (content world_other_type)) \<le> 1"
    by (simp add: world_other_type_def)
  have j: "is_target_processed prm0 wcs0 world_other_type 0 True
       = Inr \<lparr>is_processed = False, db_after = [row_other_type], sleeps = 0\<rparr>"
    by (simp add: is_target_processed_def itp_thumbnails_def itp_update_def itp_finish_def
          sqlite3_step_def book_path_icon select_rows_def world_other_type_def
          row_other_type_def)
  note t4 = ready_needs_record_and_three_thumbnails
      [OF h1 h2 icon_fits(3) h4 [OF o(1,2)], of True]
  from t4 [THEN conjunct2, THEN mp, OF a4] j
  have n: "\<not> spec_ready prm0 (wcs0 ! 0) world_other_type" by simp
  from h1 h2 icon_fits(3) c icon_fits(1,2) two t i r o j n show ?thesis by (intro conjI)
qed
subsection \<open>Spawning\<close>

lemma next_available_none: "- 1 \<notin> set fds \<Longrightarrow> next_available_from k fds = - 1"
  using next_available_from_cases [of k fds] by (auto simp: in_set_conv_nth)

lemma next_available_first:
  assumes "i < length fds" and "fds ! i = - 1" and "\<forall>j<i. fds ! j \<noteq> - 1"
  shows "next_available_from k fds = int (k + i)"
proof -
  from assms(1,2) have "- 1 \<in> set fds" by (metis nth_mem)
  with next_available_from_cases [of k fds] obtain i' where
    i': "i' < length fds" "next_available_from k fds = int (k + i')" "fds ! i' = - 1"
        "\<forall>j<i'. fds ! j \<noteq> - 1" by auto
  from assms(2,3) i'(3,4) have "i' = i" by (meson linorder_neqE_nat)
  with i'(2) show ?thesis by simp
qed

lemma tracked_below_capacity:
  assumes "pt_inv prm st"
  shows "tracked (PT st) < WATCH_MAX prm"
proof -
  from assms have l: "0 < length (spawn_pids (PT st))"
    and "spawn_pids (PT st) ! 0 = - 1" and "length (spawn_pids (PT st)) = WATCH_MAX prm"
    by (auto simp: pt_inv_def)
  moreover from l have "spawn_pids (PT st) ! 0 \<in> set (spawn_pids (PT st))" by (rule nth_mem)
  ultimately show ?thesis
    unfolding tracked_def using length_filter_less [of "- 1" "spawn_pids (PT st)" "\<lambda>p. p \<noteq> - 1"]
    by simp
qed

text \<open>
  Claim C9. In the parent, \<^verbatim>\<open>spawn\<close> records the child's pid, the read end of the
  pipe and the watch index in the first entry of the process table whose descriptor
  is free, found by a scan from entry 0; when no entry is free the daemon ends with a
  failure status. So the processes tracked at once never exceed \<^verbatim>\<open>WATCH_MAX\<close>
  (they stay below it, entry 0 being kept for the inotify descriptor).
\<close>

theorem spawn_takes_first_free_entry:
  assumes "pipe_res env = Some (p0, p1)" and "0 < fork_res env"
  shows "(- 1 \<notin> set (spawn_fds (PT st)) \<longrightarrow> spawn env command watch_idx st = Inl Exit_failure)
     \<and> (\<forall>i. i < length (spawn_fds (PT st)) \<and> spawn_fds (PT st) ! i = - 1
             \<and> (\<forall>j<i. spawn_fds (PT st) ! j \<noteq> - 1) \<longrightarrow>
          (\<exists>st'. spawn env command watch_idx st = Inr st'
              \<and> spawn_pids (PT st') = (spawn_pids (PT st))[i := fork_res env]
              \<and> spawn_fds (PT st') = (spawn_fds (PT st))[i := int p0]
              \<and> spawn_watchids (PT st') = (spawn_watchids (PT st))[i := int watch_idx]))
     \<and> (\<forall>dc wcs n gens s. 0 < WATCH_MAX prm \<and> main prm dc wcs n gens = Inr s \<longrightarrow>
            length (spawn_pids (PT s)) = WATCH_MAX prm \<and> tracked (PT s) \<le> WATCH_MAX prm
            \<and> tracked (PT s) < WATCH_MAX prm)"
proof (intro conjI allI impI)
  assume "- 1 \<notin> set (spawn_fds (PT st))"
  then show "spawn env command watch_idx st = Inl Exit_failure"
    using assms by (simp add: spawn_def Let_def get_next_available_pt_entry_def next_available_none)
next
  fix i
  assume "i < length (spawn_fds (PT st)) \<and> spawn_fds (PT st) ! i = - 1
             \<and> (\<forall>j<i. spawn_fds (PT st) ! j \<noteq> - 1)"
  then have "next_available_from 0 (spawn_fds (PT st)) = int i"
    using next_available_first [of i "spawn_fds (PT st)" 0] by simp
  then show "\<exists>st'. spawn env command watch_idx st = Inr st'
              \<and> spawn_pids (PT st') = (spawn_pids (PT st))[i := fork_res env]
              \<and> spawn_fds (PT st') = (spawn_fds (PT st))[i := int p0]
              \<and> spawn_watchids (PT st') = (spawn_watchids (PT st))[i := int watch_idx]"
    using assms
    by (simp add: spawn_def Let_def get_next_available_pt_entry_def add_process_to_table_def)
next
  fix dc wcs n gens s
  assume a: "0 < WATCH_MAX prm \<and> main prm dc wcs n gens = Inr s"
  then have inv: "pt_inv prm s" using main_inv by blast
  then show "length (spawn_pids (PT s)) = WATCH_MAX prm" by (simp add: pt_inv_def)
  from tracked_below_capacity [OF inv] show "tracked (PT s) < WATCH_MAX prm" .
  then show "tracked (PT s) \<le> WATCH_MAX prm" by simp
qed

theorem spawn_takes_first_free_entry_witness:
  "pipe_res answers0 = Some (7, 8) \<and> 0 < fork_res answers0
   \<and> spawn answers0 ''/mnt/onboard/run.sh'' 0 (st_of (pt_full 5) False []) = Inl Exit_failure
   \<and> (\<exists>st'. spawn answers0 ''/mnt/onboard/run.sh'' 0 (st_of (pt_idle 5) False []) = Inr st'
         \<and> PT st' = pt_running 5)
   \<and> tracked (pt_running 6) \<le> WATCH_MAX prm0"
proof -
  have h1: "pipe_res answers0 = Some (7, 8)" and h2: "0 < fork_res answers0"
    by (simp_all add: answers0_def)
  note t = spawn_takes_first_free_entry [OF h1 h2, of _ _ 0 prm0]
  let ?cmd = "''/mnt/onboard/run.sh''"
  let ?full = "st_of (pt_full 5) False []"
  let ?idle = "st_of (pt_idle 5) False []"
  let ?end = "st_of (pt_running 6) False ([Inotify_init1 6, Inotify_add_watch 6 0 1] @ spawn_trace)"
  have full: "- 1 \<notin> set (spawn_fds (PT ?full))"
    by (simp add: pt_full_def)
  have first: "Suc 0 < length (spawn_fds (PT ?idle)) \<and> spawn_fds (PT ?idle) ! Suc 0 = - 1
      \<and> (\<forall>j<Suc 0. spawn_fds (PT ?idle) ! j \<noteq> - 1)"
    by simp
  from t [of ?full ?cmd] have "- 1 \<notin> set (spawn_fds (PT ?full)) \<longrightarrow>
      spawn answers0 ?cmd 0 ?full = Inl Exit_failure" by (rule conjunct1)
  with full have a: "spawn answers0 ?cmd 0 ?full = Inl Exit_failure" by (rule rev_mp)
  from t [of ?idle ?cmd] have "\<forall>i. i < length (spawn_fds (PT ?idle)) \<and> spawn_fds (PT ?idle) ! i = - 1
             \<and> (\<forall>j<i. spawn_fds (PT ?idle) ! j \<noteq> - 1) \<longrightarrow>
          (\<exists>st'. spawn answers0 ?cmd 0 ?idle = Inr st'
              \<and> spawn_pids (PT st') = (spawn_pids (PT ?idle))[i := fork_res answers0]
              \<and> spawn_fds (PT st') = (spawn_fds (PT ?idle))[i := int 7]
              \<and> spawn_watchids (PT st') = (spawn_watchids (PT ?idle))[i := int 0])"
    by (rule conjunct2 [THEN conjunct1])
  from this [rule_format, OF first]
  obtain st' where st': "spawn answers0 ?cmd 0 ?idle = Inr st'"
      "spawn_pids (PT st') = (spawn_pids (PT ?idle))[Suc 0 := fork_res answers0]"
      "spawn_fds (PT st') = (spawn_fds (PT ?idle))[Suc 0 := int 7]"
      "spawn_watchids (PT st') = (spawn_watchids (PT ?idle))[Suc 0 := int 0]"
    by (elim exE conjE)
  then have b: "PT st' = pt_running 5"
    by (simp add: pt_running_def answers0_def)
  have g: "0 < WATCH_MAX prm0 \<and> main prm0 dc0 wcs0 1 [gen_b] = Inr ?end"
    using main_b by simp
  from t [of ?idle ?cmd]
  have "\<forall>dc wcs n gens s. 0 < WATCH_MAX prm0 \<and> main prm0 dc wcs n gens = Inr s \<longrightarrow>
            length (spawn_pids (PT s)) = WATCH_MAX prm0 \<and> tracked (PT s) \<le> WATCH_MAX prm0
            \<and> tracked (PT s) < WATCH_MAX prm0" by (rule conjunct2 [THEN conjunct2])
  from this [rule_format, OF g] have "tracked (PT ?end) \<le> WATCH_MAX prm0" by (elim conjE)
  then have c: "tracked (pt_running 6) \<le> WATCH_MAX prm0" by (simp only: st_of_simps)
  from st'(1) b have "\<exists>st'. spawn answers0 ?cmd 0 ?idle = Inr st' \<and> PT st' = pt_running 5"
    by (intro exI conjI)
  with a c h1 h2 show ?thesis by (intro conjI)
qed

subsection \<open>A close that comes too early\<close>

lemma on_open_sets_flag:
  assumes "on_open prm env w st = Inr st1"
    and "\<not> is_watch_already_spawned w (PT st)"
    and "is_target_processed prm (watch_config st) (open_world env) w False = Inr r"
  shows "pending_processing st1 = (\<not> is_processed r)"
  using assms by (auto simp: on_open_def split: if_splits)

lemma handle_event_open_sets_flag:
  assumes "handle_event prm fd (event, env) (st, lc) = Inr (st', lc')"
    and "has (mask_ev event) IN_OPEN"
    and "\<not> is_watch_already_spawned (fst (find_watch_idx st (wd event))) (PT st)"
    and "is_target_processed prm (watch_config st) (open_world env)
           (fst (find_watch_idx st (wd event))) False = Inr r"
  shows "pending_processing st' = (\<not> is_processed r)"
proof -
  from assms(1) obtain st1 st2 sl3 sl4 where
    s1: "(if has (mask_ev event) IN_OPEN
      then on_open prm env (fst (find_watch_idx st (wd event))) st else Inr st) = Inr st1" and
    s2: "(if has (mask_ev event) IN_CLOSE
      then on_close prm env (fst (find_watch_idx st (wd event))) st1 else Inr st1) = Inr st2" and
    s3: "(if has (mask_ev event) IN_UNMOUNT
      then on_unmount (fst (find_watch_idx st (wd event))) (st2, lc) else Inr (st2, lc)) = Inr sl3" and
    s4: "(if has (mask_ev event) IN_IGNORED
      then on_ignored (fst (find_watch_idx st (wd event))) sl3 else Inr sl3) = Inr sl4" and
    s5: "(if has (mask_ev event) IN_Q_OVERFLOW
      then on_q_overflow fd (fst (find_watch_idx st (wd event))) sl4 else Inr sl4) = Inr (st', lc')"
    by (rule handle_event_steps)
  from s1 assms(2) have "on_open prm env (fst (find_watch_idx st (wd event))) st = Inr st1"
    by simp
  from on_open_sets_flag [OF this assms(3,4)]
  have "pending_processing st1 = (\<not> is_processed r)" .
  moreover from s2 have "pending_processing st2 = pending_processing st1"
    by (auto dest: on_close_pending split: if_splits)
  moreover from on_unmount_table [OF s3] on_ignored_table [OF s4] on_q_overflow_table [OF s5]
  have "pending_processing st' = pending_processing st2" by simp
  ultimately show ?thesis by simp
qed

text \<open>
  Claim C1. An event with \<^verbatim>\<open>IN_OPEN\<close> for a watch with no tracked process, at which
  the readiness check (called without waiting) answers not ready, sets the flag; if no
  event with \<^verbatim>\<open>IN_OPEN\<close> is decoded in between, a later \<^verbatim>\<open>IN_CLOSE\<close> event forks
  nothing and leaves the process table as it was, whatever the world the check at
  the close would see, ready or not. The events in between may be of any other kind,
  for any watch, and may be decoded by later calls of \<^verbatim>\<open>handle_events\<close> (other
  descriptor, other locals).
\<close>

theorem premature_close_does_not_spawn:
  assumes "handle_event prm fd (opened, env1) (st, lc) = Inr (st1, lc1)"
    and "has (mask_ev opened) IN_OPEN"
    and "\<not> is_watch_already_spawned (fst (find_watch_idx st (wd opened))) (PT st)"
    and "is_target_processed prm (watch_config st) (open_world env1)
           (fst (find_watch_idx st (wd opened))) False = Inr r"
    and "\<not> is_processed r"
    and "for_each (handle_event prm fd2) between (st1, lc1') = Inr (st2, lc2)"
    and "no_open between"
    and "has (mask_ev closed) IN_CLOSE" and "\<not> has (mask_ev closed) IN_OPEN"
  shows "case handle_event prm fd3 (closed, env2) (st2, lc2') of
           Inl h \<Rightarrow> h = Out_of_bounds
         | Inr (st3, lc3) \<Rightarrow> spawns st3 = spawns st2 \<and> PT st3 = PT st2"
proof -
  from handle_event_open_sets_flag [OF assms(1-4)] assms(5)
  have "pending_processing st1" by simp
  with handle_batch_suppressed [OF assms(6,7)] have p2: "pending_processing st2" by simp
  show ?thesis
  proof (cases "handle_event prm fd3 (closed, env2) (st2, lc2')")
    case (Inl h)
    with handle_event_suppressed_halt [of prm fd3 "(closed, env2)" st2 lc2' h] assms(9) p2
    show ?thesis by simp
  next
    case (Inr sl)
    obtain st3 lc3 where sl: "sl = (st3, lc3)" by (cases sl)
    with Inr handle_event_suppressed [of prm fd3 "(closed, env2)" st2 lc2' st3 lc3] assms(9) p2
    show ?thesis by simp
  qed
qed

lemma no_open_simps [simp]:
  "no_open []" "no_open (e # es) = (\<not> has (mask_ev (fst e)) IN_OPEN \<and> no_open es)"
  by (simp_all add: no_open_def)

lemma event_masks [simp]:
  "mask_ev (fst e_open_two) = IN_OPEN" "mask_ev (fst e_close_ready) = IN_CLOSE"
  "mask_ev (fst e_ignored) = IN_IGNORED"
  "wd (fst e_open_two) = 1" "wd (fst e_close_ready) = 1" "wd (fst e_ignored) = 1"
  by (simp_all add: e_open_two_def e_close_ready_def e_ignored_def)

theorem premature_close_does_not_spawn_witness:
  "handle_event prm0 5 e_open_two (st_listening, lc0) = Inr (st_pending, lc0)
   \<and> is_target_processed prm0 wcs0 world_two 0 False
       = Inr \<lparr>is_processed = False, db_after = [row_icon], sleeps = 0\<rparr>
   \<and> is_target_processed prm0 wcs0 world_ready 0 True
       = Inr \<lparr>is_processed = True, db_after = [row_icon], sleeps = 0\<rparr>
   \<and> for_each (handle_event prm0 5) [e_ignored] (st_pending, lc0)
       = Inr (flag_destroyed 0 st_pending, lc0\<lparr>destroyed_wd := True\<rparr>)
   \<and> handle_event prm0 6 e_close_ready (flag_destroyed 0 st_pending, lc0)
       = Inr (flag_destroyed 0 st_pending, lc0)
   \<and> (case handle_event prm0 6 e_close_ready (flag_destroyed 0 st_pending, lc0) of
         Inl h \<Rightarrow> h = Out_of_bounds
       | Inr (st3, lc3) \<Rightarrow> spawns st3 = spawns (flag_destroyed 0 st_pending)
                            \<and> PT st3 = PT (flag_destroyed 0 st_pending))"
proof -
  have h1: "handle_event prm0 5 (ev 1 IN_OPEN, env_of world_two world_ready) (st_listening, lc0)
            = Inr (st_pending, lc0)"
    using open_two [of 5 5 False "[]" lc0]
    by (simp add: st_listening_def st_pending_def e_open_two_def)
  have h2: "has (mask_ev (ev 1 IN_OPEN)) IN_OPEN" by simp
  have idx: "fst (find_watch_idx st_listening (wd (ev 1 IN_OPEN))) = 0"
    by (simp add: st_listening_def find_icon)
  have h3: "\<not> is_watch_already_spawned (fst (find_watch_idx st_listening (wd (ev 1 IN_OPEN))))
              (PT st_listening)"
    by (simp add: st_listening_def)
  have h4: "is_target_processed prm0 (watch_config st_listening)
              (open_world (env_of world_two world_ready))
              (fst (find_watch_idx st_listening (wd (ev 1 IN_OPEN)))) False
            = Inr \<lparr>is_processed = False, db_after = [row_icon], sleeps = 0\<rparr>"
    unfolding idx by (simp add: st_listening_def itp_icon_two)
  have h5: "\<not> is_processed \<lparr>is_processed = False, db_after = [row_icon], sleeps = 0\<rparr>"
    by simp
  have h6: "for_each (handle_event prm0 5) [e_ignored] (st_pending, lc0)
            = Inr (flag_destroyed 0 st_pending, lc0\<lparr>destroyed_wd := True\<rparr>)"
    by (simp add: st_pending_def ignored_icon)
  have h7: "no_open [e_ignored]" by simp
  have h8: "has (mask_ev (ev 1 IN_CLOSE)) IN_CLOSE" and h9: "\<not> has (mask_ev (ev 1 IN_CLOSE)) IN_OPEN"
    by simp_all
  have c: "handle_event prm0 6 e_close_ready (flag_destroyed 0 st_pending, lc0)
       = Inr (flag_destroyed 0 st_pending, lc0)"
    by (simp add: handle_event_def e_close_ready_def find_watch_idx_def
          find_watch_idx_from.simps on_close_def st_pending_def flag_destroyed_def st_of_def
          wcs0_def wc_icon_def)
  note t = premature_close_does_not_spawn [OF h1 h2 h3 h4 h5 h6 h7 h8 h9,
      of 6 "env_of world_two world_ready" lc0]
  from t have "case handle_event prm0 6 e_close_ready (flag_destroyed 0 st_pending, lc0) of
         Inl h \<Rightarrow> h = Out_of_bounds
       | Inr (st3, lc3) \<Rightarrow> spawns st3 = spawns (flag_destroyed 0 st_pending)
                            \<and> PT st3 = PT (flag_destroyed 0 st_pending)"
    by (simp only: e_close_ready_def)
  moreover have "handle_event prm0 5 e_open_two (st_listening, lc0) = Inr (st_pending, lc0)"
    using h1 by (simp only: e_open_two_def)
  ultimately show ?thesis using h6 c itp_icon_two [of False] itp_icon_ready [of True]
    by (intro conjI)
qed

subsection \<open>How long the flag lasts\<close>

lemma spawns_st_of [simp]: "spawns (st_of pt pend tr) = filter is_fork tr"
  by (simp add: spawns_def)

lemma open_ready:
  "handle_event prm0 fd e_open_ready (st_of (pt_idle lfd) pend tr, lc)
   = Inr (st_of (pt_idle lfd) False (tr @ [Query_processed 0 False]), lc)"
  by (simp add: handle_event_def e_open_ready_def find_icon on_open_def itp_icon_ready)

text \<open>
  The claim as stated fails: the icon is opened with two thumbnails (flag set), closed
  with all three (suppressed), and closed once more with all three. The second close
  forks nothing either and the flag is still set, although the same close forks the
  companion when the flag is clear.
\<close>

theorem second_close_still_suppressed:
  "for_each (handle_event prm0 5) [e_open_two, e_close_ready, e_close_ready] (st_listening, lc0)
     = Inr (st_pending, lc0)
   \<and> spawns st_pending = []
   \<and> is_target_processed prm0 wcs0 (close_world (snd e_close_ready)) 0 True
     = Inr \<lparr>is_processed = True, db_after = [row_icon], sleeps = 0\<rparr>
   \<and> handle_event prm0 5 e_close_ready (st_listening, lc0)
     = Inr (st_of (pt_running 5) False spawn_trace, lc0)"
proof -
  have "for_each (handle_event prm0 5) [e_open_two, e_close_ready, e_close_ready]
          (st_listening, lc0) = Inr (st_pending, lc0)"
    by (simp add: st_listening_def st_pending_def open_two close_pending)
  moreover have "spawns st_pending = []" by (simp add: st_pending_def)
  moreover have "is_target_processed prm0 wcs0 (close_world (snd e_close_ready)) 0 True
     = Inr \<lparr>is_processed = True, db_after = [row_icon], sleeps = 0\<rparr>"
    by (simp add: e_close_ready_def itp_icon_ready)
  moreover have "handle_event prm0 5 e_close_ready (st_listening, lc0)
     = Inr (st_of (pt_running 5) False spawn_trace, lc0)"
    using close_fresh [of 5 5 "[]" lc0] by (simp add: st_listening_def)
  ultimately show ?thesis by (intro conjI)
qed

text \<open>
  Claim C6, as the code has it. The flag is not cleared by a close: once set, it
  keeps every later \<^verbatim>\<open>IN_CLOSE\<close> from spawning, however many there are, as long as
  no fresh open observation is decoded (an event with \<^verbatim>\<open>IN_OPEN\<close> for a watch with
  no tracked process); events of any other kind, an \<^verbatim>\<open>IN_OPEN\<close> for a watch whose
  process is tracked included, leave the forks, the process table and the flag as they
  are. Of the event that comes next, a fresh open observation sets the flag to the
  negation of what the readiness check answers then, and any other event again leaves
  flag, forks and table.
\<close>

theorem suppression_lasts_until_next_open:
  assumes "pending_processing st"
    and "for_each (handle_event prm fd) evs (st, lc) = Inr (st', lc')"
    and "list_all (\<lambda>e. \<not> fresh_open st (fst e)) evs"
  shows "spawns st' = spawns st \<and> PT st' = PT st \<and> pending_processing st'
     \<and> (\<forall>opened env s2 l2.
           handle_event prm fd (opened, env) (st', lc') = Inr (s2, l2) \<longrightarrow>
           (if fresh_open st' opened
            then \<exists>r. is_target_processed prm (watch_config st') (open_world env)
                        (fst (find_watch_idx st' (wd opened))) False = Inr r
                     \<and> pending_processing s2 = (\<not> is_processed r)
            else pending_processing s2 \<and> spawns s2 = spawns st' \<and> PT s2 = PT st'))"
proof -
  from handle_batch_quiet [OF assms(2,3,1)]
  have b: "spawns st' = spawns st" "PT st' = PT st" "pending_processing st'" by simp_all
  have "if fresh_open st' opened
        then \<exists>r. is_target_processed prm (watch_config st') (open_world env)
                    (fst (find_watch_idx st' (wd opened))) False = Inr r
                 \<and> pending_processing s2 = (\<not> is_processed r)
        else pending_processing s2 \<and> spawns s2 = spawns st' \<and> PT s2 = PT st'"
    if h: "handle_event prm fd (opened, env) (st', lc') = Inr (s2, l2)" for opened env s2 l2
  proof (cases "fresh_open st' opened")
    case True
    with handle_event_flag [OF h] show ?thesis by simp
  next
    case False
    then have "\<not> fresh_open st' (fst (opened, env))" by simp
    from handle_event_quiet [OF h this b(3)] False show ?thesis by simp
  qed
  with b show ?thesis by blast
qed

theorem suppression_lasts_until_next_open_witness:
  "pending_processing st_pending
   \<and> for_each (handle_event prm0 5) [e_close_ready, e_close_ready] (st_pending, lc0)
       = Inr (st_pending, lc0)
   \<and> \<not> fresh_open st_pending (fst e_close_ready)
   \<and> spawns st_pending = []
   \<and> fresh_open st_pending (fst e_open_ready)
   \<and> handle_event prm0 5 e_open_ready (st_pending, lc0)
       = Inr (st_of (pt_idle 5) False [Query_processed 0 False, Query_processed 0 False], lc0)
   \<and> for_each (handle_event prm0 5) [e_open_ready, e_close_ready]
         (st_of (pt_running 5) True spawn_trace, lc0)
       = Inr (st_of (pt_running 5) True spawn_trace, lc0)
   \<and> \<not> fresh_open (st_of (pt_running 5) True spawn_trace) (fst e_open_ready)
   \<and> spawns (st_of (pt_running 5) True spawn_trace) = [Fork 0 1234]"
proof -
  let ?s2 = "st_of (pt_idle 5) False [Query_processed 0 False, Query_processed 0 False]"
  let ?run = "st_of (pt_running 5) True spawn_trace"
  have h1: "pending_processing st_pending" by (simp add: st_pending_def)
  have h2: "for_each (handle_event prm0 5) [e_close_ready, e_close_ready] (st_pending, lc0)
       = Inr (st_pending, lc0)"
    by (simp add: st_pending_def close_pending)
  have nf: "\<not> fresh_open st_pending (fst e_close_ready)"
    by (simp add: fresh_open_def e_close_ready_def)
  then have h3: "list_all (\<lambda>e. \<not> fresh_open st_pending (fst e)) [e_close_ready, e_close_ready]"
    by simp
  have f: "fresh_open st_pending (fst e_open_ready)"
    by (simp add: fresh_open_def e_open_ready_def st_pending_def find_icon)
  have o: "handle_event prm0 5 (ev 1 IN_OPEN, env_of world_ready world_ready) (st_pending, lc0)
       = Inr (?s2, lc0)"
    using open_ready [of 5 5 True "[Query_processed 0 False]" lc0]
    by (simp add: st_pending_def e_open_ready_def)
  note t = suppression_lasts_until_next_open [OF h1 h2 h3]
  from t have p1: "pending_processing st_pending"
    by (rule conjunct2 [THEN conjunct2, THEN conjunct1])
  from t [THEN conjunct2, THEN conjunct2, THEN conjunct2, rule_format, OF o] f
  have "\<exists>r. is_target_processed prm0 (watch_config st_pending)
               (open_world (env_of world_ready world_ready))
               (fst (find_watch_idx st_pending (wd (ev 1 IN_OPEN)))) False = Inr r
            \<and> pending_processing ?s2 = (\<not> is_processed r)"
    by (simp add: e_open_ready_def)
  have g1: "pending_processing ?run" by simp
  have g2: "for_each (handle_event prm0 5) [e_open_ready, e_close_ready] (?run, lc0)
       = Inr (?run, lc0)"
    by (simp add: handle_event_def e_open_ready_def e_close_ready_def find_icon on_open_def
          on_close_def)
  have nr: "\<not> fresh_open ?run (fst e_open_ready)"
    by (simp add: fresh_open_def e_open_ready_def find_icon)
  have nc: "\<not> fresh_open ?run (fst e_close_ready)"
    by (simp add: fresh_open_def e_close_ready_def)
  from nr nc have g3: "list_all (\<lambda>e. \<not> fresh_open ?run (fst e)) [e_open_ready, e_close_ready]"
    by simp
  note u = suppression_lasts_until_next_open [OF g1 g2 g3]
  from u have nr': "\<not> fresh_open ?run (fst e_open_ready)" using nr by simp
  have s1: "spawns st_pending = []" by (simp add: st_pending_def)
  have s2: "spawns ?run = [Fork 0 1234]" by (simp add: spawn_trace_def)
  have o': "handle_event prm0 5 e_open_ready (st_pending, lc0) = Inr (?s2, lc0)"
    using o by (simp only: e_open_ready_def)
  from p1 h2 nf s1 f o' g2 nr' s2 show ?thesis by (intro conjI)
qed

text \<open>
  The claim as stated fails: in the first generation the icon is opened too early
  (flag set) and its watch is then removed, which ends the generation; in the second
  the icon is closed, fully processed. The flag set in the first generation is still
  set at the end and no fork happened, although the second generation alone, entered
  with the flag clear, forks the companion.
\<close>

theorem flag_carries_into_next_generation:
  "main prm0 dc0 wcs0 1 [gen_a, gen_b]
     = Inr (st_of (pt_idle 6) True [Inotify_init1 5, Inotify_add_watch 5 0 1,
              Query_processed 0 False, Close 5, Inotify_init1 6, Inotify_add_watch 6 0 1])
   \<and> main prm0 dc0 wcs0 1 [gen_b]
     = Inr (st_of (pt_running 6) False
              ([Inotify_init1 6, Inotify_add_watch 6 0 1] @ spawn_trace))
   \<and> filter is_fork ([Inotify_init1 6, Inotify_add_watch 6 0 1] @ spawn_trace) = [Fork 0 1234]"
  using main_ab main_b by (simp add: spawn_trace_def)

lemma run_c_small:
  "run_generation prm0 gen_c (st_of (pt_idle lfd) pend tr)
   = Inr (st_of (pt_idle 5) pend (tr @ [Inotify_init1 5, Inotify_add_watch 5 0 1, Close 5]), True)"
proof -
  have "setup_generation prm0 gen_c (st_of (pt_idle lfd) pend tr)
        = Inr (st_of (pt_idle 5) pend (tr @ [Inotify_init1 5, Inotify_add_watch 5 0 1]))"
    by (simp add: setup_generation_def is_target_mounted_def add_watch_def st_of_def emit_def
          wcs0_rewatch [simplified] pt_idle_def)
  then show ?thesis
    by (simp add: run_generation_def wakeup_idle handle_events_def ignored_icon
          remove_other_flagged)
qed

text \<open>
  Claim C7, as the code has it. The flag is one static bit of \<^verbatim>\<open>handle_events\<close>,
  reset on every fresh open observation: where an event with \<^verbatim>\<open>IN_OPEN\<close> is
  handled for a watch with no tracked process, the readiness check is called without
  waiting (the trace records the query) and the flag becomes the negation of its
  answer. Any other event, an \<^verbatim>\<open>IN_OPEN\<close> for a watch whose process is tracked
  included, leaves the flag and records no such query. Nothing else in the main loop
  writes the flag, the end of a generation and the setup of the next included: over
  any run of the main loop, through any number of generations, in which no such query
  is recorded, the flag at the end is the flag at the start. So the flag is not scoped
  to a generation: it is carried from one into the next.
\<close>

theorem pending_flag_changes_only_on_open:
  assumes "main_loop prm gens st = Inr st'"
    and "filter is_open_query (trace st') = filter is_open_query (trace st)"
  shows "pending_processing st' = pending_processing st
     \<and> (\<forall>fd event env s lc s1 lc1.
          handle_event prm fd (event, env) (s, lc) = Inr (s1, lc1) \<longrightarrow>
          (if fresh_open s event
           then (\<exists>r. is_target_processed prm (watch_config s) (open_world env)
                        (fst (find_watch_idx s (wd event))) False = Inr r
                     \<and> pending_processing s1 = (\<not> is_processed r))
                \<and> filter is_open_query (trace s1)
                    = filter is_open_query (trace s)
                      @ [Query_processed (fst (find_watch_idx s (wd event))) False]
           else pending_processing s1 = pending_processing s
                \<and> filter is_open_query (trace s1) = filter is_open_query (trace s)))"
proof -
  from main_loop_kept [OF assms(1)] assms(2)
  have "pending_processing st' = pending_processing st" by (rule flag_kept_unchanged)
  then show ?thesis using handle_event_flag by blast
qed

theorem pending_flag_changes_only_on_open_witness:
  "main_loop prm0 [gen_c, gen_b] (st_of (pt_idle 4) True [])
     = Inr (st_of (pt_idle 6) True
              [Inotify_init1 5, Inotify_add_watch 5 0 1, Close 5,
               Inotify_init1 6, Inotify_add_watch 6 0 1])
   \<and> filter is_open_query [Inotify_init1 5, Inotify_add_watch 5 0 1, Close 5,
               Inotify_init1 6, Inotify_add_watch 6 0 1] = []
   \<and> pending_processing (st_of (pt_idle 6) True
              [Inotify_init1 5, Inotify_add_watch 5 0 1, Close 5,
               Inotify_init1 6, Inotify_add_watch 6 0 1])
   \<and> handle_event prm0 6 e_open_ready (st_of (pt_running 6) True [], lc0)
       = Inr (st_of (pt_running 6) True [], lc0)
   \<and> \<not> fresh_open (st_of (pt_running 6) True []) (fst e_open_ready)
   \<and> handle_event prm0 6 e_open_ready (st_of (pt_idle 6) True [], lc0)
       = Inr (st_of (pt_idle 6) False [Query_processed 0 False], lc0)
   \<and> fresh_open (st_of (pt_idle 6) True []) (fst e_open_ready)"
proof -
  let ?tr = "[Inotify_init1 5, Inotify_add_watch 5 0 1, Close 5,
               Inotify_init1 6, Inotify_add_watch 6 0 1]"
  have h1: "main_loop prm0 [gen_c, gen_b] (st_of (pt_idle 4) True []) = Inr (st_of (pt_idle 6) True ?tr)"
    by (simp add: run_c_small run_b_pending)
  have q: "filter is_open_query ?tr = []" by simp
  then have h2: "filter is_open_query (trace (st_of (pt_idle 6) True ?tr))
            = filter is_open_query (trace (st_of (pt_idle 4) True []))" by simp
  note t = pending_flag_changes_only_on_open [OF h1 h2]
  from t have p: "pending_processing (st_of (pt_idle 6) True ?tr)
                  = pending_processing (st_of (pt_idle 4) True [])"
    by (rule conjunct1)
  have o1: "handle_event prm0 6 (ev 1 IN_OPEN, env_of world_ready world_ready)
              (st_of (pt_running 6) True [], lc0) = Inr (st_of (pt_running 6) True [], lc0)"
    by (simp add: handle_event_def find_icon on_open_def)
  have n1: "\<not> fresh_open (st_of (pt_running 6) True []) (ev 1 IN_OPEN)"
    by (simp add: fresh_open_def find_icon)
  from t [THEN conjunct2, rule_format, OF o1] n1
  have "pending_processing (st_of (pt_running 6) True [])
        = pending_processing (st_of (pt_running 6) True [])" by simp
  have o2: "handle_event prm0 6 (ev 1 IN_OPEN, env_of world_ready world_ready)
              (st_of (pt_idle 6) True [], lc0)
            = Inr (st_of (pt_idle 6) False [Query_processed 0 False], lc0)"
    using open_ready [of 6 6 True "[]" lc0] by (simp add: e_open_ready_def)
  have f2: "fresh_open (st_of (pt_idle 6) True []) (ev 1 IN_OPEN)"
    by (simp add: fresh_open_def find_icon)
  from p have p': "pending_processing (st_of (pt_idle 6) True ?tr)" by simp
  from o1 have o1': "handle_event prm0 6 e_open_ready (st_of (pt_running 6) True [], lc0)
       = Inr (st_of (pt_running 6) True [], lc0)" by (simp only: e_open_ready_def)
  from o2 have o2': "handle_event prm0 6 e_open_ready (st_of (pt_idle 6) True [], lc0)
       = Inr (st_of (pt_idle 6) False [Query_processed 0 False], lc0)"
    by (simp only: e_open_ready_def)
  from n1 have n1': "\<not> fresh_open (st_of (pt_running 6) True []) (fst e_open_ready)"
    by (simp add: e_open_ready_def)
  from f2 have f2': "fresh_open (st_of (pt_idle 6) True []) (fst e_open_ready)"
    by (simp add: e_open_ready_def)
  from h1 q p' o1' n1' o2' f2' show ?thesis by (intro conjI)
qed
subsection \<open>One process per watch, and entry 0\<close>

lemma handle_event_tracked:
  assumes "handle_event prm fd e (st, lc) = Inr (st', lc')"
    and "is_watch_already_spawned (fst (find_watch_idx st (wd (fst e)))) (PT st)"
  shows "spawns st' = spawns st \<and> PT st' = PT st"
proof -
  obtain event env where e: "e = (event, env)" by (cases e)
  from assms(1) [unfolded e] obtain st1 st2 sl3 sl4 where
    s1: "(if has (mask_ev event) IN_OPEN
      then on_open prm env (fst (find_watch_idx st (wd event))) st else Inr st) = Inr st1" and
    s2: "(if has (mask_ev event) IN_CLOSE
      then on_close prm env (fst (find_watch_idx st (wd event))) st1 else Inr st1) = Inr st2" and
    s3: "(if has (mask_ev event) IN_UNMOUNT
      then on_unmount (fst (find_watch_idx st (wd event))) (st2, lc) else Inr (st2, lc)) = Inr sl3" and
    s4: "(if has (mask_ev event) IN_IGNORED
      then on_ignored (fst (find_watch_idx st (wd event))) sl3 else Inr sl3) = Inr sl4" and
    s5: "(if has (mask_ev event) IN_Q_OVERFLOW
      then on_q_overflow fd (fst (find_watch_idx st (wd event))) sl4 else Inr sl4) = Inr (st', lc')"
    by (rule handle_event_steps)
  from assms(2) e have tr: "is_watch_already_spawned (fst (find_watch_idx st (wd event))) (PT st)"
    by simp
  from s1 tr have "st1 = st" by (auto dest: on_open_tracked split: if_splits)
  with s2 tr have "st2 = st" by (auto dest: on_close_tracked split: if_splits)
  with on_unmount_table [OF s3] on_ignored_table [OF s4] on_q_overflow_table [OF s5]
  show ?thesis by (simp add: spawns_def)
qed

lemma spawn_keeps_tracking:
  assumes "spawn env c w' st = Inr st'" and "pt_inv prm st"
    and "is_watch_already_spawned w (PT st)"
  shows "is_watch_already_spawned w (PT st')"
proof -
  let ?fds = "spawn_fds (PT st)" and ?wids = "spawn_watchids (PT st)"
  from assms(1) obtain p0 p1 where p: "pipe_res env = Some (p0, p1)"
    by (auto simp: spawn_def split: option.splits)
  from assms(1) p have pos: "0 < fork_res env" and r: "0 \<le> next_available_from 0 ?fds"
    by (auto simp: spawn_def Let_def get_next_available_pt_entry_def split: if_splits)
  from next_available_from_cases [of 0 ?fds] r obtain i where
    i: "i < length ?fds" "next_available_from 0 ?fds = int i" "?fds ! i = - 1"
    by auto
  from assms(1) p pos i have wids': "spawn_watchids (PT st') = ?wids[i := int w']"
    by (auto simp: spawn_def Let_def get_next_available_pt_entry_def add_process_to_table_def)
  from assms(2) i have free: "?wids ! i = - 1" by (simp add: pt_inv_def)
  from assms(3) obtain k where k: "k < length ?wids" "?wids ! k = int w"
    by (auto simp: is_watch_already_spawned_def spawned_from_iff in_set_conv_nth)
  with free have "k \<noteq> i" by auto
  with k have "k < length (?wids[i := int w']) \<and> ?wids[i := int w'] ! k = int w" by simp
  then have "int w \<in> set (?wids[i := int w'])" by (metis nth_mem)
  with wids' show ?thesis by (simp add: is_watch_already_spawned_def spawned_from_iff)
qed

lemma on_close_keeps_tracking:
  assumes "on_close prm env w' st = Inr st'" and "pt_inv prm st"
    and "is_watch_already_spawned w (PT st)"
  shows "is_watch_already_spawned w (PT st')"
proof (cases "PT st' = PT st")
  case True
  with assms(3) show ?thesis by simp
next
  case False
  with assms(1) obtain r where
    "spawn (spawn_answers env) (action (watch_config st ! w')) w' (emit [Query_processed w' True] st) = Inr st'"
    by (auto simp: on_close_def Let_def split: if_splits sum.splits)
  moreover have "pt_inv prm (emit [Query_processed w' True] st)"
    using assms(2) pt_inv_same_table [of "emit [Query_processed w' True] st" st prm] by simp
  ultimately show ?thesis using assms(3) spawn_keeps_tracking [of _ _ w' "emit [Query_processed w' True] st" st' prm w]
    by simp
qed

lemma handle_event_keeps_tracking:
  assumes "handle_event prm fd e (st, lc) = Inr (st', lc')" and "pt_inv prm st"
    and "is_watch_already_spawned w (PT st)"
  shows "is_watch_already_spawned w (PT st')"
proof -
  obtain event env where e: "e = (event, env)" by (cases e)
  from assms(1) [unfolded e] obtain st1 st2 sl3 sl4 where
    s1: "(if has (mask_ev event) IN_OPEN
      then on_open prm env (fst (find_watch_idx st (wd event))) st else Inr st) = Inr st1" and
    s2: "(if has (mask_ev event) IN_CLOSE
      then on_close prm env (fst (find_watch_idx st (wd event))) st1 else Inr st1) = Inr st2" and
    s3: "(if has (mask_ev event) IN_UNMOUNT
      then on_unmount (fst (find_watch_idx st (wd event))) (st2, lc) else Inr (st2, lc)) = Inr sl3" and
    s4: "(if has (mask_ev event) IN_IGNORED
      then on_ignored (fst (find_watch_idx st (wd event))) sl3 else Inr sl3) = Inr sl4" and
    s5: "(if has (mask_ev event) IN_Q_OVERFLOW
      then on_q_overflow fd (fst (find_watch_idx st (wd event))) sl4 else Inr sl4) = Inr (st', lc')"
    by (rule handle_event_steps)
  from s1 have t1: "PT st1 = PT st \<and> filter touches_slot0 (trace st1) = filter touches_slot0 (trace st)"
    by (auto simp: on_open_def split: if_splits sum.splits)
  with assms(2) have "pt_inv prm st1" using pt_inv_same_table by blast
  with s2 t1 assms(3) have "is_watch_already_spawned w (PT st2)"
    by (auto dest: on_close_keeps_tracking split: if_splits)
  with on_unmount_table [OF s3] on_ignored_table [OF s4] on_q_overflow_table [OF s5]
  show ?thesis by simp
qed

text \<open>
  Claim C2. In every state the main loop reaches, no watch index stands in two
  entries of the process table. An event whose watch has an entry there (a process
  spawned for it that was not reaped) forks nothing and leaves the table as it is,
  whatever its mask; and decoding events never drops an entry, so the watch stays
  tracked until one of the reap passes resets its entry. The same holds for the
  states in the middle of a buffer of events.
\<close>

theorem one_process_per_watch:
  assumes "main prm dc wcs n gens = Inr st" and "0 < WATCH_MAX prm"
  shows "distinct (filter (\<lambda>w. w \<noteq> - 1) (spawn_watchids (PT st)))
     \<and> (\<forall>fd e lc st' lc'.
           is_watch_already_spawned (fst (find_watch_idx st (wd (fst e)))) (PT st)
           \<and> handle_event prm fd e (st, lc) = Inr (st', lc')
           \<longrightarrow> spawns st' = spawns st \<and> PT st' = PT st)
     \<and> (\<forall>w fd e lc st' lc'.
           is_watch_already_spawned w (PT st)
           \<and> handle_event prm fd e (st, lc) = Inr (st', lc')
           \<longrightarrow> is_watch_already_spawned w (PT st'))
     \<and> (\<forall>fd evs lc st' lc'.
           gens \<noteq> [] \<and> for_each (handle_event prm fd) evs (st, lc) = Inr (st', lc')
           \<longrightarrow> distinct (filter (\<lambda>w. w \<noteq> - 1) (spawn_watchids (PT st'))))"
proof -
  from main_inv [OF assms] have inv: "pt_inv prm st"
    and g: "gens \<noteq> [] \<longrightarrow> (\<exists>g \<in> set gens. good prm (init_fd g) st)" by simp_all
  from inv have "distinct (filter (\<lambda>w. w \<noteq> - 1) (spawn_watchids (PT st)))"
    by (simp add: pt_inv_def)
  moreover have "spawns st' = spawns st \<and> PT st' = PT st"
    if "is_watch_already_spawned (fst (find_watch_idx st (wd (fst e)))) (PT st)
           \<and> handle_event prm fd e (st, lc) = Inr (st', lc')" for fd e lc st' lc'
    using that handle_event_tracked by blast
  moreover have "is_watch_already_spawned w (PT st')"
    if "is_watch_already_spawned w (PT st) \<and> handle_event prm fd e (st, lc) = Inr (st', lc')"
    for w fd e lc st' lc'
    using that inv handle_event_keeps_tracking by blast
  moreover have "distinct (filter (\<lambda>w. w \<noteq> - 1) (spawn_watchids (PT st')))"
    if "gens \<noteq> [] \<and> for_each (handle_event prm fd) evs (st, lc) = Inr (st', lc')"
    for fd evs lc st' lc'
  proof -
    from that g obtain lfd where "good prm lfd st" by blast
    with that handle_batch_good [of prm fd evs "(st, lc)" "(st', lc')" lfd]
    have "good prm lfd st'" by simp
    then show ?thesis by (simp add: good_def pt_inv_def)
  qed
  ultimately show ?thesis by blast
qed

theorem one_process_per_watch_witness:
  "main prm0 dc0 wcs0 1 [gen_b]
     = Inr (st_of (pt_running 6) False ([Inotify_init1 6, Inotify_add_watch 6 0 1] @ spawn_trace))
   \<and> 0 < WATCH_MAX prm0
   \<and> distinct (filter (\<lambda>w. w \<noteq> - 1) (spawn_watchids (pt_running 6)))
   \<and> is_watch_already_spawned 0 (pt_running 6)
   \<and> handle_event prm0 6 e_close_ready
        (st_of (pt_running 6) False ([Inotify_init1 6, Inotify_add_watch 6 0 1] @ spawn_trace), lc0)
      = Inr (st_of (pt_running 6) False ([Inotify_init1 6, Inotify_add_watch 6 0 1] @ spawn_trace), lc0)"
proof -
  let ?st = "st_of (pt_running 6) False ([Inotify_init1 6, Inotify_add_watch 6 0 1] @ spawn_trace)"
  have h1: "main prm0 dc0 wcs0 1 [gen_b] = Inr ?st" by (rule main_b)
  have h2: "0 < WATCH_MAX prm0" by simp
  from one_process_per_watch [OF h1 h2]
  have "distinct (filter (\<lambda>w. w \<noteq> - 1) (spawn_watchids (PT ?st)))" by (rule conjunct1)
  then have d: "distinct (filter (\<lambda>w. w \<noteq> - 1) (spawn_watchids (pt_running 6)))"
    by (simp only: st_of_simps)
  have c: "handle_event prm0 6 e_close_ready (?st, lc0) = Inr (?st, lc0)"
    by (rule close_running)
  have t: "is_watch_already_spawned 0 (pt_running 6)" by simp
  from h1 h2 d t c show ?thesis by (intro conjI)
qed

text \<open>
  Claim C8. In every state the main loop reaches, entry 0 of the process table holds
  the sentinels for pid and watch index and, once a generation was set up, the inotify
  descriptor of a generation; and the trace holds no wait on entry 0, no reset of it
  and no spawn recorded in it: both reap passes run over the entries from 1 on, and
  \<^verbatim>\<open>spawn\<close> never finds entry 0 free. The same holds inside a wakeup, after the
  pass over the closed pipes, the sweep without blocking and any events decoded.
\<close>

theorem entry_zero_is_reserved:
  assumes "main prm dc wcs n gens = Inr st" and "0 < WATCH_MAX prm"
  shows "spawn_pids (PT st) ! 0 = - 1 \<and> spawn_watchids (PT st) ! 0 = - 1
     \<and> filter touches_slot0 (trace st) = []
     \<and> (gens \<noteq> [] \<longrightarrow>
          (\<exists>g \<in> set gens. spawn_fds (PT st) ! 0 = init_fd g \<and> init_fd g \<noteq> - 1))
     \<and> (\<forall>rv wt nh fd evs lc s1 s2 s3 lc3.
           gens \<noteq> []
           \<and> for_each (reap_closed rv wt) [1..<WATCH_MAX prm] st = Inr s1
           \<and> reap_zombie_processes prm nh s1 = Inr s2
           \<and> for_each (handle_event prm fd) evs (s2, lc) = Inr (s3, lc3)
           \<longrightarrow> filter touches_slot0 (trace s3) = []
               \<and> spawn_pids (PT s3) ! 0 = - 1 \<and> spawn_watchids (PT s3) ! 0 = - 1
               \<and> spawn_fds (PT s3) ! 0 = spawn_fds (PT st) ! 0)"
proof -
  from main_inv [OF assms] have inv: "pt_inv prm st"
    and g: "gens \<noteq> [] \<longrightarrow> (\<exists>g \<in> set gens. good prm (init_fd g) st)" by simp_all
  have "filter touches_slot0 (trace s3) = []
        \<and> spawn_pids (PT s3) ! 0 = - 1 \<and> spawn_watchids (PT s3) ! 0 = - 1
        \<and> spawn_fds (PT s3) ! 0 = spawn_fds (PT st) ! 0"
    if "gens \<noteq> []
        \<and> for_each (reap_closed rv wt) [1..<WATCH_MAX prm] st = Inr s1
        \<and> reap_zombie_processes prm nh s1 = Inr s2
        \<and> for_each (handle_event prm fd) evs (s2, lc) = Inr (s3, lc3)"
    for rv wt nh fd evs lc s1 s2 s3 lc3
  proof -
    from that g obtain lfd where g0: "good prm lfd st" by blast
    from that have r1: "for_each (reap_closed rv wt) [1..<WATCH_MAX prm] st = Inr s1"
      and r2: "reap_zombie_processes prm nh s1 = Inr s2"
      and r3: "for_each (handle_event prm fd) evs (s2, lc) = Inr (s3, lc3)" by simp_all
    from r1 g0 have "good prm lfd s1" by (rule reap_closed_all_good)
    with r2 have "good prm lfd s2" by (rule reap_zombie_processes_good)
    with handle_batch_good [OF r3, of lfd] have "good prm lfd s3" by simp
    with g0 show ?thesis by (simp add: good_def pt_inv_def)
  qed
  with inv g show ?thesis by (auto simp: pt_inv_def good_def)
qed

theorem entry_zero_is_reserved_witness:
  "main prm0 dc0 wcs0 1 [gen_b]
     = Inr (st_of (pt_running 6) False ([Inotify_init1 6, Inotify_add_watch 6 0 1] @ spawn_trace))
   \<and> 0 < WATCH_MAX prm0
   \<and> spawn_pids (pt_running 6) ! 0 = - 1 \<and> spawn_watchids (pt_running 6) ! 0 = - 1
   \<and> spawn_fds (pt_running 6) ! 0 = 6
   \<and> filter touches_slot0 ([Inotify_init1 6, Inotify_add_watch 6 0 1] @ spawn_trace) = []"
proof -
  let ?st = "st_of (pt_running 6) False ([Inotify_init1 6, Inotify_add_watch 6 0 1] @ spawn_trace)"
  have h1: "main prm0 dc0 wcs0 1 [gen_b] = Inr ?st" by (rule main_b)
  have h2: "0 < WATCH_MAX prm0" by simp
  note t = entry_zero_is_reserved [OF h1 h2]
  from t have a: "spawn_pids (PT ?st) ! 0 = - 1" by (rule conjunct1)
  from t have b: "spawn_watchids (PT ?st) ! 0 = - 1" by (rule conjunct2 [THEN conjunct1])
  from t have c: "filter touches_slot0 (trace ?st) = []"
    by (rule conjunct2 [THEN conjunct2, THEN conjunct1])
  have d: "spawn_fds (pt_running 6) ! 0 = 6" by simp
  from a b c have "spawn_pids (pt_running 6) ! 0 = - 1 \<and> spawn_watchids (pt_running 6) ! 0 = - 1
    \<and> filter touches_slot0 ([Inotify_init1 6, Inotify_add_watch 6 0 1] @ spawn_trace) = []"
    by (simp only: st_of_simps)
  with h1 h2 d show ?thesis by (intro conjI) simp_all
qed

subsection \<open>The end of a generation\<close>



lemma remove_other_watch_length [simp]:
  "length (watch_config (remove_other_watch fd u st i)) = length (watch_config st)"
  by (simp add: remove_other_watch_def)





















lemma remove_other_watches_count [simp]:
  "watch_count (remove_other_watches fd u st) = watch_count st"
proof -
  have "watch_count (foldl (remove_other_watch fd u) st is) = watch_count st" for "is"
    by (induction "is" arbitrary: st) (simp_all add: remove_other_watch_def)
  then show ?thesis by (simp add: remove_other_watches_def)
qed












lemma st2_of_simps [simp]:
  "PT (st2_of pt tr) = pt" "watch_config (st2_of pt tr) = wcs2"
  "watch_count (st2_of pt tr) = 2" "trace (st2_of pt tr) = tr"
  "pending_processing (st2_of pt tr) = False"
  "emit as (st2_of pt tr) = st2_of pt (tr @ as)"
  "(st2_of pt tr)\<lparr>PT := pt'\<rparr> = st2_of pt' tr"
  by (simp_all add: st2_of_def emit_def)

lemma wc_other_simps [simp]: "inotify_wd wc_other = 2" "wd_was_destroyed wc_other = False"
  by (simp_all add: wc_other_def)

lemma wcs2_simps [simp]:
  "length wcs2 = 3" "wcs2 ! 0 = wc_icon" "wcs2 ! Suc 0 = wc_other" "wcs2 ! 1 = wc_other"
  by (simp_all add: wcs2_def)




lemma flagged_two [simp]:
  "watch_config (flag_destroyed 0 (st2_of pt tr))
   = [wc_icon\<lparr>wd_was_destroyed := True\<rparr>, wc_other, wc_zero]"
  "watch_count (flag_destroyed 0 (st2_of pt tr)) = 2"
  "trace (flag_destroyed 0 (st2_of pt tr)) = tr"
  by (simp_all add: flag_destroyed_def wcs2_def)

lemma upt_0_2 [simp]: "[0..<2] = [0, Suc 0]"
  by (simp add: upt_rec)



lemma gen_e_simps [simp]:
  "init_fd gen_e = 5" "mtab gen_e = Some [''/mnt/onboard'']" "add_watch_res gen_e i = int i + 1"
  "wakeups gen_e = [wakeup_events [Read_ok [e_unmount]], wakeup_events [Read_ok [e_ignored]]]"
  by (simp_all add: gen_e_def)











lemma ends_generation_two [simp]:
  "ends_generation e_ignored" "\<not> ends_generation e_unmount"
  "has (mask_ev (fst e_unmount)) IN_UNMOUNT" "\<not> has (mask_ev (fst e_ignored)) IN_UNMOUNT"
  "\<not> has (mask_ev (fst e_ignored)) IN_Q_OVERFLOW" "\<not> has (mask_ev (fst e_unmount)) IN_Q_OVERFLOW"
  by (simp_all add: ends_generation_def e_ignored_def e_unmount_def has_def IN_UNMOUNT_def
        IN_IGNORED_def IN_Q_OVERFLOW_def)


subsection \<open>Events that match no watch\<close>

lemma find_unmatched_3: "find_watch_idx (st_listening\<lparr>watch_count := 3\<rparr>) (- 1) = (3, False)"
  by (simp add: find_watch_idx_def find_watch_idx_from.simps st_listening_def st_of_def
        wcs0_def)

text \<open>
  Claim C10 asks that the index an event is evaluated with be below
  \<^verbatim>\<open>watch_count\<close>. The code does not see to it: when no watch matches, the search
  leaves \<^verbatim>\<open>watch_idx = watch_count\<close>, a line is logged and the branches run with
  that index. With one watch configured, a queue-overflow event (whose descriptor is
  -1) removes the watch descriptor stored in entry 1 and flags entry 1 as destroyed;
  an \<^verbatim>\<open>IN_OPEN\<close> with an unknown descriptor runs the readiness check for entry 1
  and sets the flag; and with all \<^verbatim>\<open>WATCH_MAX\<close> entries configured the index is
  past the end of the array.
\<close>

theorem unmatched_event_uses_entry_past_the_watches:
  "find_watch_idx st_listening (wd (fst e_overflow)) = (1, False)
   \<and> watch_count st_listening = 1
   \<and> handle_event prm0 5 e_overflow (st_listening, lc0)
       = Inr (flag_destroyed 1 (emit [Inotify_rm_watch 5 0] st_listening),
              lc0\<lparr>destroyed_wd := True\<rparr>)
   \<and> wd_was_destroyed (watch_config (flag_destroyed 1 (emit [Inotify_rm_watch 5 0] st_listening)) ! 1)
   \<and> handle_event prm0 5 (ev 9 IN_OPEN, env_of world_ready world_ready) (st_listening, lc0)
       = Inr (st_of (pt_idle 5) True [Query_processed 1 False], lc0)
   \<and> handle_event prm0 5 e_overflow (st_listening\<lparr>watch_count := 3\<rparr>, lc0) = Inl Out_of_bounds"
proof -
  have f: "find_watch_idx st_listening (- 1) = (1, False)"
    by (simp add: st_listening_def find_none)
  have f9: "find_watch_idx st_listening 9 = (1, False)"
    by (simp add: st_listening_def find_watch_idx_def find_watch_idx_from.simps)
  have a: "handle_event prm0 5 e_overflow (st_listening, lc0)
       = Inr (flag_destroyed 1 (emit [Inotify_rm_watch 5 0] st_listening),
              lc0\<lparr>destroyed_wd := True\<rparr>)"
    by (simp add: handle_event_def e_overflow_def f on_q_overflow_def) (simp add: st_listening_def)
  have b: "wd_was_destroyed (watch_config (flag_destroyed 1 (emit [Inotify_rm_watch 5 0] st_listening)) ! 1)"
    by (simp add: flag_destroyed_def st_listening_def wcs0_def)
  have c: "handle_event prm0 5 (ev 9 IN_OPEN, env_of world_ready world_ready) (st_listening, lc0)
       = Inr (st_of (pt_idle 5) True [Query_processed 1 False], lc0)"
    by (simp add: handle_event_def f9 on_open_def)
       (simp add: st_listening_def world_ready_def itp_zero_entry [unfolded One_nat_def])
  have d: "handle_event prm0 5 e_overflow (st_listening\<lparr>watch_count := 3\<rparr>, lc0) = Inl Out_of_bounds"
    by (simp add: handle_event_def e_overflow_def find_unmatched_3 on_q_overflow_def)
       (simp add: st_listening_def)
  from f a b c d show ?thesis by (simp add: e_overflow_def st_listening_def)
qed

end
